theory Spec2Isabelle
  imports Main "HOL-Library.Char_ord" "HOL-Library.List_Lexorder"
begin

section \<open>Configuration (collect.js, CONFIG)\<close>

definition DEFAULT_TIMEOUT :: int where
  "DEFAULT_TIMEOUT = 90"

definition POLL_INTERVAL :: int where
  "POLL_INTERVAL = 2000"

definition STABLE_CHECKS :: nat where
  "STABLE_CHECKS = 3"

section \<open>Completions: a JavaScript call either returns or throws\<close>

datatype 'a completion = Normal 'a | Throw string

text \<open>\<^verbatim>\<open>try { body } catch (err) { handler(err) }\<close>\<close>

definition try_catch :: "'a completion \<Rightarrow> (string \<Rightarrow> 'a completion) \<Rightarrow> 'a completion" where
  "try_catch body handler = (case body of Normal v \<Rightarrow> Normal v | Throw err \<Rightarrow> handler err)"

text \<open>\<^verbatim>\<open>try { body } finally { fin }\<close>: a \<open>finally\<close> block that throws replaces the
  completion of the body; one that ends normally leaves it as it is.\<close>

definition try_finally :: "'a completion \<Rightarrow> unit completion \<Rightarrow> 'a completion" where
  "try_finally body fin = (case fin of Throw err \<Rightarrow> Throw err | Normal _ \<Rightarrow> body)"

section \<open>The stability-polling extractor (extractFromTab)\<close>

text \<open>
  One poll is one call of \<^verbatim>\<open>Runtime.evaluate\<close>. The promise either rejects
  (\<open>EvalError\<close>: the branch \<^verbatim>\<open>catch (evalErr)\<close>) or resolves to a result whose
  \<^verbatim>\<open>result.value\<close> is a string or is absent (\<open>Evaluated None\<close>: the script threw
  inside the page, or returned nothing). The extraction scripts of all engines
  return strings.
\<close>

datatype poll = EvalError | Evaluated "string option"

text \<open>\<^verbatim>\<open>const text = result?.result?.value || ""\<close>\<close>

definition text_of :: "string option \<Rightarrow> string" where
  "text_of v = (case v of None \<Rightarrow> [] | Some s \<Rightarrow> s)"

record poll_state =
  lastText :: string
  stableCount :: nat

definition initial :: poll_state where
  "initial = \<lparr> lastText = [], stableCount = 0 \<rparr>"

datatype step = Return string | Continue poll_state

text \<open>The body of the \<^verbatim>\<open>while\<close> loop, lines 272-294: the inner
  \<^verbatim>\<open>try\<close>/\<^verbatim>\<open>catch\<close> around the evaluation and the comparison with \<open>lastText\<close>.\<close>

definition poll_body :: "poll \<Rightarrow> poll_state \<Rightarrow> step" where
  "poll_body p st =
     (case p of
        EvalError \<Rightarrow> Continue st
      | Evaluated v \<Rightarrow>
          (let text = text_of v in
           if length text > 0 \<and> text = lastText st then
             (let st' = st\<lparr>stableCount := stableCount st + 1\<rparr> in
              if stableCount st' \<ge> STABLE_CHECKS then Return text else Continue st')
           else
             (let st' = st\<lparr>stableCount := 0\<rparr> in
              if length text > 0 then Continue (st'\<lparr>lastText := text\<rparr>) else Continue st')))"

text \<open>
  What the browser does during one call of \<^verbatim>\<open>extractFromTab\<close>:
  \<^item> \<open>connect_error\<close>: \<^verbatim>\<open>CDP({target, host, port})\<close> rejects with this message
    (\<open>None\<close>: it resolves to a client);
  \<^item> \<open>started\<close>: the reading of \<^verbatim>\<open>Date.now()\<close> from which the deadline is computed,
    in milliseconds;
  \<^item> \<open>page k\<close>: the outcome of the \<open>k\<close>-th evaluation of the engine's extraction
    script in the tab, should the loop get that far;
  \<^item> \<open>lag k\<close>: the milliseconds iteration \<open>k\<close> takes beyond \<^verbatim>\<open>sleep(POLL_INTERVAL)\<close>
    (the evaluation itself, scheduling);
  \<^item> \<open>close_error\<close>: \<^verbatim>\<open>client.close()\<close> rejects.
\<close>

record session =
  connect_error :: "string option"
  started :: int
  page :: "nat \<Rightarrow> poll"
  lag :: "nat \<Rightarrow> nat"
  close_error :: "string option"

datatype loop_exit = Returned string | Deadline poll_state

text \<open>\<^verbatim>\<open>while (Date.now() < deadline) { ...; await sleep(POLL_INTERVAL); }\<close> with the
  clock reading \<open>now\<close> and the number \<open>k\<close> of evaluations made so far.\<close>

function poll_loop :: "session \<Rightarrow> int \<Rightarrow> nat \<Rightarrow> int \<Rightarrow> poll_state \<Rightarrow> loop_exit" where
  "poll_loop s deadline k now st =
     (if now < deadline then
        (case poll_body (page s k) st of
           Return text \<Rightarrow> Returned text
         | Continue st' \<Rightarrow> poll_loop s deadline (Suc k) (now + POLL_INTERVAL + int (lag s k)) st')
      else Deadline st)"
  by pat_completeness auto
termination
  by (relation "measure (\<lambda>(s, deadline, k, now, st). nat (deadline - now))")
     (auto simp: POLL_INTERVAL_def)

declare poll_loop.simps [simp del]

definition incomplete_note :: string where
  "incomplete_note = [CHR 0x0A, CHR 0x0A] @ ''> [Response may be incomplete - timed out]''"

text \<open>The \<^verbatim>\<open>try\<close> block of \<^verbatim>\<open>extractFromTab\<close>, lines 262-307; the second
  component tells whether the variable \<open>client\<close> has been assigned.\<close>

definition extract_try :: "session \<Rightarrow> int \<Rightarrow> string option completion \<times> bool" where
  "extract_try s timeoutSec =
     (case connect_error s of
        Some msg \<Rightarrow> (Throw msg, False)
      | None \<Rightarrow>
          (let deadline = started s + timeoutSec * 1000 in
           case poll_loop s deadline 0 (started s) initial of
             Returned text \<Rightarrow> (Normal (Some text), True)
           | Deadline st \<Rightarrow>
               if length (lastText st) > 0
               then (Normal (Some (lastText st @ incomplete_note)), True)
               else (Normal None, True)))"

definition client_close :: "session \<Rightarrow> unit completion" where
  "client_close s = (case close_error s of None \<Rightarrow> Normal () | Some msg \<Rightarrow> Throw msg)"

text \<open>\<^verbatim>\<open>finally { if (client) { try { await client.close(); } catch (_) {} } }\<close>; the
  second component counts the calls of \<^verbatim>\<open>client.close()\<close>.\<close>

definition extract_finally :: "session \<Rightarrow> bool \<Rightarrow> unit completion \<times> nat" where
  "extract_finally s client =
     (if client then (try_catch (client_close s) (\<lambda>_. Normal ()), 1)
      else (Normal (), 0))"

record extraction =
  outcome :: "string option completion"
  opened :: bool
  close_calls :: nat

text \<open>\<^verbatim>\<open>try { ... } catch (err) { return null; } finally { ... }\<close>\<close>

definition extractFromTab :: "session \<Rightarrow> int \<Rightarrow> extraction" where
  "extractFromTab s timeoutSec =
     (let (body, client) = extract_try s timeoutSec;
          caught = try_catch body (\<lambda>err. Normal None);
          (fin, n) = extract_finally s client
      in \<lparr> outcome = try_finally caught fin, opened = client, close_calls = n \<rparr>)"

subsection \<open>The polling run as a list\<close>

text \<open>The outcomes of the evaluations the loop makes before the deadline when no
  poll ends it early: iteration \<open>k\<close> is entered when the clock reads less than the
  deadline.\<close>

function polls_before :: "session \<Rightarrow> int \<Rightarrow> nat \<Rightarrow> int \<Rightarrow> poll list" where
  "polls_before s deadline k now =
     (if now < deadline then
        page s k # polls_before s deadline (Suc k) (now + POLL_INTERVAL + int (lag s k))
      else [])"
  by pat_completeness auto
termination
  by (relation "measure (\<lambda>(s, deadline, k, now). nat (deadline - now))")
     (auto simp: POLL_INTERVAL_def)

declare polls_before.simps [simp del]

definition polling_run :: "session \<Rightarrow> int \<Rightarrow> poll list" where
  "polling_run s timeoutSec = polls_before s (started s + timeoutSec * 1000) 0 (started s)"

text \<open>The loop over a given list of polls.\<close>

fun run_polls :: "poll list \<Rightarrow> poll_state \<Rightarrow> loop_exit" where
  "run_polls [] st = Deadline st"
| "run_polls (p # ps) st =
     (case poll_body p st of
        Return text \<Rightarrow> Returned text
      | Continue st' \<Rightarrow> run_polls ps st')"

text \<open>The texts of the polls whose evaluation resolved, in order.\<close>

fun observed :: "poll list \<Rightarrow> string list" where
  "observed [] = []"
| "observed (EvalError # ps) = observed ps"
| "observed (Evaluated v # ps) = text_of v # observed ps"

section \<open>slugify\<close>

text \<open>
  A JavaScript string is a sequence of UTF-16 code units. The model covers the
  strings whose code units are below 256 (ASCII and Latin-1), one \<^typ>\<open>char\<close> each;
  \<open>length\<close> is then the \<^verbatim>\<open>.length\<close> of the source.
\<close>

text \<open>\<^verbatim>\<open>toLowerCase()\<close> on one code unit below 256: A-Z, and the Latin-1 capitals
  U+00C0-U+00DE except the multiplication sign U+00D7.\<close>

definition toLowerCase_char :: "char \<Rightarrow> char" where
  "toLowerCase_char c =
     (let n = (of_char c :: nat) in
      if (65 \<le> n \<and> n \<le> 90) \<or> (192 \<le> n \<and> n \<le> 222 \<and> n \<noteq> 215) then char_of (n + 32) else c)"

definition toLowerCase :: "string \<Rightarrow> string" where
  "toLowerCase text = map toLowerCase_char text"

text \<open>The character class \<^verbatim>\<open>[a-z0-9]\<close>.\<close>

definition alnum :: "char \<Rightarrow> bool" where
  "alnum c = (let n = (of_char c :: nat) in (97 \<le> n \<and> n \<le> 122) \<or> (48 \<le> n \<and> n \<le> 57))"

definition hyphen :: "char \<Rightarrow> bool" where
  "hyphen c = (c = CHR ''-'')"

text \<open>\<^verbatim>\<open>.replace(/[^a-z0-9]+/g, "-")\<close>: every maximal run of characters outside
  the class becomes one hyphen.\<close>

function replace_non_alnum :: "string \<Rightarrow> string" where
  "replace_non_alnum [] = []"
| "replace_non_alnum (c # cs) =
     (if alnum c then c # replace_non_alnum cs
      else CHR ''-'' # replace_non_alnum (dropWhile (\<lambda>d. \<not> alnum d) cs))"
  by pat_completeness auto
termination
  by (relation "measure length") (auto simp: le_imp_less_Suc length_dropWhile_le)

text \<open>\<^verbatim>\<open>.replace(/-+$/, "")\<close>\<close>

definition strip_trailing :: "string \<Rightarrow> string" where
  "strip_trailing text = rev (dropWhile hyphen (rev text))"

text \<open>\<^verbatim>\<open>.replace(/^-+|-+$/g, "")\<close>\<close>

definition strip_both :: "string \<Rightarrow> string" where
  "strip_both text = strip_trailing (dropWhile hyphen text)"

text \<open>\<^verbatim>\<open>function slugify(text, maxLen = 60)\<close>; \<^verbatim>\<open>.slice(0, maxLen)\<close> for a
  length that is not negative.\<close>

definition slugify :: "string \<Rightarrow> nat \<Rightarrow> string" where
  "slugify text maxLen =
     strip_trailing (take maxLen (strip_both (replace_non_alnum (toLowerCase text))))"

definition slugify_default :: "string \<Rightarrow> string" where
  "slugify_default text = slugify text 60"

subsection \<open>Words and separators\<close>

text \<open>The maximal runs of characters of the class \<^verbatim>\<open>[a-z0-9]\<close> in a text, in order.\<close>

function alnum_words :: "string \<Rightarrow> string list" where
  "alnum_words [] = []"
| "alnum_words (c # cs) =
     (if alnum c then (c # takeWhile alnum cs) # alnum_words (dropWhile alnum cs)
      else alnum_words cs)"
  by pat_completeness auto
termination
  by (relation "measure length") (auto simp: le_imp_less_Suc length_dropWhile_le)

fun join_hyphen :: "string list \<Rightarrow> string" where
  "join_hyphen [] = []"
| "join_hyphen [w] = w"
| "join_hyphen (w # v # ws) = w @ CHR ''-'' # join_hyphen (v # ws)"

text \<open>Every character is of the class or is a hyphen, and no hyphen is followed by
  another one.\<close>

fun single_hyphens :: "string \<Rightarrow> bool" where
  "single_hyphens [] = True"
| "single_hyphens (c # cs) =
     ((alnum c \<or> (hyphen c \<and> (cs = [] \<or> alnum (hd cs)))) \<and> single_hyphens cs)"

text \<open>ASCII punctuation, and a text with its punctuation removed: two texts differ
  only in punctuation when they are equal without it.\<close>

definition punctuation :: "char \<Rightarrow> bool" where
  "punctuation c =
     (let n = (of_char c :: nat) in
      (33 \<le> n \<and> n \<le> 47) \<or> (58 \<le> n \<and> n \<le> 64) \<or> (91 \<le> n \<and> n \<le> 96) \<or> (123 \<le> n \<and> n \<le> 126))"

definition without_punctuation :: "string \<Rightarrow> string" where
  "without_punctuation text = filter (\<lambda>c. \<not> punctuation c) text"

section \<open>Folder names\<close>

text \<open>A reading of \<^verbatim>\<open>new Date()\<close> in UTC, by its calendar fields.\<close>

record utc_time =
  year :: nat
  month :: nat
  day :: nat
  hour :: nat
  minute :: nat
  second :: nat
  millis :: nat

text \<open>The readings whose \<^verbatim>\<open>toISOString()\<close> has the 24-character form
  \<^verbatim>\<open>YYYY-MM-DDTHH:mm:ss.sssZ\<close> (years 0 to 9999).\<close>

definition valid_time :: "utc_time \<Rightarrow> bool" where
  "valid_time t =
     (year t \<le> 9999 \<and> 1 \<le> month t \<and> month t \<le> 12 \<and> 1 \<le> day t \<and> day t \<le> 31 \<and>
      hour t < 24 \<and> minute t < 60 \<and> second t < 60 \<and> millis t < 1000)"

definition digit :: "nat \<Rightarrow> char" where
  "digit n = char_of (48 + n mod 10)"

definition pad2 :: "nat \<Rightarrow> string" where
  "pad2 n = [digit (n div 10), digit n]"

definition pad3 :: "nat \<Rightarrow> string" where
  "pad3 n = [digit (n div 100), digit (n div 10), digit n]"

definition pad4 :: "nat \<Rightarrow> string" where
  "pad4 n = [digit (n div 1000), digit (n div 100), digit (n div 10), digit n]"

definition toISOString :: "utc_time \<Rightarrow> string" where
  "toISOString t =
     pad4 (year t) @ ''-'' @ pad2 (month t) @ ''-'' @ pad2 (day t) @ ''T'' @
     pad2 (hour t) @ '':'' @ pad2 (minute t) @ '':'' @ pad2 (second t) @ ''.'' @
     pad3 (millis t) @ ''Z''"

text \<open>\<^verbatim>\<open>new Date().toISOString().replace(/[:.]/g, "-").slice(0, 19)\<close>\<close>

definition folder_ts :: "utc_time \<Rightarrow> string" where
  "folder_ts t =
     take 19 (map (\<lambda>c. if c = CHR '':'' \<or> c = CHR ''.'' then CHR ''-'' else c) (toISOString t))"

text \<open>\<^verbatim>\<open>const folderName = `${ts}_${slug}`\<close>\<close>

definition folderName_of :: "utc_time \<Rightarrow> string \<Rightarrow> string" where
  "folderName_of t query = folder_ts t @ ''_'' @ slugify_default query"

text \<open>Chronological order of two readings: the lexicographic order of their fields.\<close>

definition clock_fields :: "utc_time \<Rightarrow> nat list" where
  "clock_fields t = [year t, month t, day t, hour t, minute t, second t, millis t]"

definition earlier :: "utc_time \<Rightarrow> utc_time \<Rightarrow> bool" where
  "earlier t1 t2 = (clock_fields t1 < clock_fields t2)"

text \<open>The fields down to the second.\<close>

definition to_second :: "utc_time \<Rightarrow> nat list" where
  "to_second t = take 6 (clock_fields t)"

text \<open>Two readings of the clock within one second.\<close>

definition morning :: utc_time where
  "morning = \<lparr> year = 2026, month = 11, day = 3, hour = 9, minute = 35, second = 12,
               millis = 100 \<rparr>"

definition morning_later :: utc_time where
  "morning_later = morning \<lparr> millis := 900 \<rparr>"

definition next_second :: utc_time where
  "next_second = morning \<lparr> second := 13, millis := 0 \<rparr>"

section \<open>The collection pipeline (collectAll)\<close>

subsection \<open>Engines and tabs\<close>

text \<open>An entry of \<^verbatim>\<open>ENGINES\<close>. Every \<^verbatim>\<open>urlMatch\<close> is a regular expression without
  operators (its only escapes are literal dots), so it is kept as the text it
  searches for. The extraction script runs inside the page; what it returns on each
  poll is part of the \<^typ>\<open>session\<close>.\<close>

record engine =
  e_name :: string
  e_slug :: string
  urlMatch :: string

definition ENGINES :: "engine list" where
  "ENGINES =
     [\<lparr> e_name = ''ChatGPT'', e_slug = ''chatgpt'', urlMatch = ''chatgpt.com'' \<rparr>,
      \<lparr> e_name = ''Claude'', e_slug = ''claude'', urlMatch = ''claude.ai'' \<rparr>,
      \<lparr> e_name = ''Perplexity'', e_slug = ''perplexity'', urlMatch = ''perplexity.ai'' \<rparr>,
      \<lparr> e_name = ''Google AI Studio'', e_slug = ''google-ai-studio'',
        urlMatch = ''aistudio.google.com'' \<rparr>]"

text \<open>A target listed by \<^verbatim>\<open>CDP.List\<close>.\<close>

record target =
  t_type :: string
  t_url :: string

text \<open>\<^verbatim>\<open>regex.test(url)\<close> for such an expression: the text occurs in the URL.\<close>

fun regex_test :: "string \<Rightarrow> string \<Rightarrow> bool" where
  "regex_test needle [] = (needle = [])"
| "regex_test needle (c # cs) =
     (take (length needle) (c # cs) = needle \<or> regex_test needle cs)"

text \<open>\<^verbatim>\<open>targets.find((t) => t.type === "page" && engine.urlMatch.test(t.url))\<close>\<close>

definition find_tab :: "engine \<Rightarrow> target list \<Rightarrow> target option" where
  "find_tab engine targets =
     find (\<lambda>t. t_type t = ''page'' \<and> regex_test (urlMatch engine) (t_url t)) targets"

subsection \<open>The environment of one run\<close>

text \<open>
  \<^item> \<open>dirname\<close>: \<^verbatim>\<open>__dirname\<close>;
  \<^item> \<open>listed\<close>: what \<^verbatim>\<open>CDP.List\<close> resolves to, or the error it rejects with;
  \<^item> \<open>extracted_query\<close>: what \<^verbatim>\<open>extractQuery(targets)\<close> resolves to (each failing
    step of that function is inside a \<^verbatim>\<open>try\<close>);
  \<^item> \<open>cdp tab engine\<close>: the session of the extraction from that tab;
  \<^item> \<open>now_folder\<close>, \<open>now_prompt\<close>, \<open>now_engine\<close>, \<open>now_synthesis\<close>: the readings of
    \<^verbatim>\<open>new Date()\<close> for the folder name, in \<^verbatim>\<open>prompt.md\<close>, in an engine's file and in
    \<^verbatim>\<open>synthesis.md\<close>;
  \<^item> \<open>claude query paths\<close>: what \<^verbatim>\<open>execFileSync("claude", ...)\<close> returns for the
    prompt built from the query, with these files attached, or the error it throws;
  \<^item> \<open>on_disk\<close>: the paths that exist before the run;
  \<^item> \<open>viewer\<close>: the page \<^verbatim>\<open>generateViewer\<close> builds, or the error it throws.
  File system calls are taken to succeed, and the observer \<^verbatim>\<open>onProgress\<close> to return.
\<close>

record response =
  r_engine :: string
  r_slug :: string
  r_status :: string
  r_chars :: "nat option"
  r_file :: "string option"

record world =
  dirname :: string
  listed :: "target list completion"
  extracted_query :: string
  cdp :: "target \<Rightarrow> engine \<Rightarrow> session"
  now_folder :: utc_time
  now_prompt :: utc_time
  now_engine :: "engine \<Rightarrow> utc_time"
  now_synthesis :: utc_time
  claude :: "string \<Rightarrow> string list \<Rightarrow> string completion"
  on_disk :: "string \<Rightarrow> bool"
  viewer :: "string \<Rightarrow> string \<Rightarrow> response list \<Rightarrow> string option \<Rightarrow> string completion"

record opts =
  opt_timeout :: "int option"
  opt_doSynthesize :: "bool option"

definition nl :: string where
  "nl = [CHR 0x0A]"

definition path_join :: "string \<Rightarrow> string \<Rightarrow> string" where
  "path_join dir name = dir @ ''/'' @ name"

definition OUTPUT_DIR :: "world \<Rightarrow> string" where
  "OUTPUT_DIR w = path_join (dirname w) ''responses''"

subsection \<open>What a run accumulates\<close>

record response_file =
  rf_engine :: string
  rf_path :: string

text \<open>The calls of \<^verbatim>\<open>onProgress\<close>.\<close>

datatype event =
    Started string "string list"
  | EngineDone string string nat
  | Synthesizing
  | Complete string string "response list"

text \<open>\<open>written\<close> lists the calls of \<^verbatim>\<open>fs.writeFileSync\<close> in order, path and data.\<close>

record run_state =
  responses :: "response list"
  responseFiles :: "response_file list"
  written :: "(string \<times> string) list"
  emitted :: "event list"

definition engine_header :: "world \<Rightarrow> string \<Rightarrow> engine \<Rightarrow> target \<Rightarrow> string" where
  "engine_header w query engine tab =
     ''# '' @ e_name engine @ '' Response'' @ nl @ nl @
     ''**Source:** '' @ e_name engine @ nl @
     ''**URL:** '' @ t_url tab @ nl @
     ''**Date:** '' @ toISOString (now_engine w engine) @ nl @
     ''**Query:** '' @ query @ nl @ nl @
     ''---'' @ nl @ nl"

definition no_response_note :: string where
  "no_response_note = ''*No response collected*''"

text \<open>The body of \<^verbatim>\<open>for (const engine of ENGINES)\<close>, lines 577-608.\<close>

definition collect_engine ::
  "world \<Rightarrow> target list \<Rightarrow> string \<Rightarrow> string \<Rightarrow> int \<Rightarrow> engine \<Rightarrow> run_state \<Rightarrow> run_state completion" where
  "collect_engine w targets query promptDir timeout engine st =
     (case find_tab engine targets of
        None \<Rightarrow>
          Normal (st\<lparr> responses := responses st @
                        [\<lparr> r_engine = e_name engine, r_slug = e_slug engine,
                           r_status = ''no_tab'', r_chars = None, r_file = None \<rparr>],
                      emitted := emitted st @ [EngineDone (e_name engine) ''no_tab'' 0] \<rparr>)
      | Some tab \<Rightarrow>
          (case outcome (extractFromTab (cdp w tab engine) timeout) of
             Throw err \<Rightarrow> Throw err
           | Normal text \<Rightarrow>
               (let filePath = path_join promptDir (e_slug engine @ ''.md'');
                    md = engine_header w query engine tab
                in if text \<noteq> None \<and> text \<noteq> Some [] then
                     Normal (st\<lparr> responseFiles := responseFiles st @
                                   [\<lparr> rf_engine = e_name engine, rf_path = filePath \<rparr>],
                                 responses := responses st @
                                   [\<lparr> r_engine = e_name engine, r_slug = e_slug engine,
                                      r_status = ''ok'', r_chars = Some (length (text_of text)),
                                      r_file = Some (e_slug engine @ ''.md'') \<rparr>],
                                 emitted := emitted st @
                                   [EngineDone (e_name engine) ''ok'' (length (text_of text))],
                                 written := written st @ [(filePath, md @ text_of text)] \<rparr>)
                   else
                     Normal (st\<lparr> responses := responses st @
                                   [\<lparr> r_engine = e_name engine, r_slug = e_slug engine,
                                      r_status = ''failed'', r_chars = None, r_file = None \<rparr>],
                                 emitted := emitted st @ [EngineDone (e_name engine) ''failed'' 0],
                                 written := written st @ [(filePath, md @ no_response_note)] \<rparr>))))"

fun collect_engines ::
  "world \<Rightarrow> target list \<Rightarrow> string \<Rightarrow> string \<Rightarrow> int \<Rightarrow> engine list \<Rightarrow> run_state \<Rightarrow> run_state completion" where
  "collect_engines w targets query promptDir timeout [] st = Normal st"
| "collect_engines w targets query promptDir timeout (engine # engines) st =
     (case collect_engine w targets query promptDir timeout engine st of
        Throw err \<Rightarrow> Throw err
      | Normal st' \<Rightarrow> collect_engines w targets query promptDir timeout engines st')"

subsection \<open>Synthesis\<close>

text \<open>\<^verbatim>\<open>String.prototype.trim\<close> on code units below 256.\<close>

definition whitespace :: "char \<Rightarrow> bool" where
  "whitespace c = ((of_char c :: nat) \<in> {9, 10, 11, 12, 13, 32, 160})"

definition trim :: "string \<Rightarrow> string" where
  "trim text = rev (dropWhile whitespace (rev (dropWhile whitespace text)))"

text \<open>\<^verbatim>\<open>names.join(", ")\<close>\<close>

fun join_comma :: "string list \<Rightarrow> string" where
  "join_comma [] = []"
| "join_comma [x] = x"
| "join_comma (x # y # ys) = x @ '', '' @ join_comma (y # ys)"

text \<open>\<^verbatim>\<open>synthesize(query, responseFiles, promptDir)\<close>: the files it writes. The call
  of the command line tool and the write are inside one \<^verbatim>\<open>try\<close>, whose
  \<^verbatim>\<open>catch\<close> only logs.\<close>

definition synthesize :: "world \<Rightarrow> string \<Rightarrow> response_file list \<Rightarrow> string \<Rightarrow> (string \<times> string) list" where
  "synthesize w query files promptDir =
     (case claude w query (map rf_path files) of
        Throw err \<Rightarrow> []
      | Normal result \<Rightarrow>
          [(path_join promptDir ''synthesis.md'',
            ''# Cross-LLM Synthesis'' @ nl @ nl @
            ''**Query:** '' @ query @ nl @
            ''**Date:** '' @ toISOString (now_synthesis w) @ nl @
            ''**Sources:** '' @ join_comma (map rf_engine files) @ nl @ nl @
            ''---'' @ nl @ nl @
            trim result)])"

subsection \<open>collectAll\<close>

text \<open>The object \<^verbatim>\<open>collectAll\<close> resolves to, and next to it what the run did:
  the files written, the events emitted, and the argument of the call of
  \<^verbatim>\<open>synthesize\<close>, if it was called.\<close>

record collection =
  promptDir :: string
  folderName :: string
  c_query :: string
  c_responses :: "response list"
  synthesisPath :: "string option"
  synthesisFile :: "string option"
  viewerFile :: "string option"
  c_written :: "(string \<times> string) list"
  c_emitted :: "event list"
  synthesize_call :: "response_file list option"

text \<open>\<^verbatim>\<open>opts.timeout || DEFAULT_TIMEOUT\<close>\<close>

definition timeout_of :: "opts \<Rightarrow> int" where
  "timeout_of opts =
     (case opt_timeout opts of
        None \<Rightarrow> DEFAULT_TIMEOUT
      | Some t \<Rightarrow> if t = 0 then DEFAULT_TIMEOUT else t)"

definition collectAll :: "world \<Rightarrow> opts \<Rightarrow> collection completion" where
  "collectAll w opts =
     (let timeout = timeout_of opts;
          doSynthesize = (opt_doSynthesize opts \<noteq> Some False)
      in case listed w of
           Throw err \<Rightarrow> Throw err
         | Normal targets \<Rightarrow>
             (let query = extracted_query w;
                  folder = folderName_of (now_folder w) query;
                  dir = path_join (OUTPUT_DIR w) folder;
                  st0 = \<lparr> responses = [], responseFiles = [],
                          written = [(path_join dir ''prompt.md'',
                                      ''# Query'' @ nl @ nl @ query @ nl @ nl @
                                      ''**Date:** '' @ toISOString (now_prompt w) @ nl)],
                          emitted = [Started query (map e_name ENGINES)] \<rparr>
              in case collect_engines w targets query dir timeout ENGINES st0 of
                   Throw err \<Rightarrow> Throw err
                 | Normal st \<Rightarrow>
                     (let synth = (doSynthesize \<and> length (responseFiles st) \<ge> 2);
                          st1 = (if synth
                                 then st\<lparr> emitted := emitted st @ [Synthesizing],
                                          written := written st @
                                            synthesize w query (responseFiles st) dir \<rparr>
                                 else st);
                          synthPath = path_join dir ''synthesis.md'';
                          synthExists = (on_disk w synthPath \<or> synthPath \<in> fst ` set (written st1));
                          attached = (synth \<and> synthExists);
                          page = viewer w dir query (responses st1)
                                   (if synthExists then Some synthPath else None);
                          st2 = (case page of
                                   Normal html \<Rightarrow>
                                     st1\<lparr> written := written st1 @ [(path_join dir ''index.html'', html)] \<rparr>
                                 | Throw err \<Rightarrow> st1)
                      in Normal
                           \<lparr> promptDir = dir, folderName = folder, c_query = query,
                             c_responses = responses st2,
                             synthesisPath = (if attached then Some synthPath else None),
                             synthesisFile = (if attached then Some ''synthesis.md'' else None),
                             viewerFile = (case page of Normal html \<Rightarrow> Some ''index.html''
                                           | Throw err \<Rightarrow> None),
                             c_written = written st2,
                             c_emitted = emitted st2 @ [Complete folder query (responses st2)],
                             synthesize_call = (if synth then Some (responseFiles st) else None) \<rparr>)))"

subsection \<open>What one engine contributes to a run\<close>

text \<open>The text collected from a tab: \<open>None\<close> when the extraction returns \<^verbatim>\<open>null\<close> or
  the empty string, the values for which \<^verbatim>\<open>if (text)\<close> takes the \<^verbatim>\<open>else\<close> branch.\<close>

definition engine_text :: "world \<Rightarrow> target \<Rightarrow> engine \<Rightarrow> int \<Rightarrow> string option" where
  "engine_text w tab engine timeout =
     (case outcome (extractFromTab (cdp w tab engine) timeout) of
        Normal (Some t) \<Rightarrow> if t = [] then None else Some t
      | _ \<Rightarrow> None)"

definition engine_response :: "world \<Rightarrow> target list \<Rightarrow> int \<Rightarrow> engine \<Rightarrow> response" where
  "engine_response w targets timeout engine =
     (case find_tab engine targets of
        None \<Rightarrow> \<lparr> r_engine = e_name engine, r_slug = e_slug engine, r_status = ''no_tab'',
                  r_chars = None, r_file = None \<rparr>
      | Some tab \<Rightarrow>
          (case engine_text w tab engine timeout of
             Some t \<Rightarrow> \<lparr> r_engine = e_name engine, r_slug = e_slug engine, r_status = ''ok'',
                        r_chars = Some (length t), r_file = Some (e_slug engine @ ''.md'') \<rparr>
           | None \<Rightarrow> \<lparr> r_engine = e_name engine, r_slug = e_slug engine, r_status = ''failed'',
                       r_chars = None, r_file = None \<rparr>))"

definition engine_path :: "string \<Rightarrow> engine \<Rightarrow> string" where
  "engine_path dir engine = path_join dir (e_slug engine @ ''.md'')"

definition engine_files ::
  "world \<Rightarrow> target list \<Rightarrow> string \<Rightarrow> string \<Rightarrow> int \<Rightarrow> engine \<Rightarrow> (string \<times> string) list" where
  "engine_files w targets query dir timeout engine =
     (case find_tab engine targets of
        None \<Rightarrow> []
      | Some tab \<Rightarrow>
          [(engine_path dir engine,
            engine_header w query engine tab @
              (case engine_text w tab engine timeout of
                 Some t \<Rightarrow> t
               | None \<Rightarrow> no_response_note))])"

definition engine_attachment ::
  "world \<Rightarrow> target list \<Rightarrow> string \<Rightarrow> int \<Rightarrow> engine \<Rightarrow> response_file list" where
  "engine_attachment w targets dir timeout engine =
     (case find_tab engine targets of
        None \<Rightarrow> []
      | Some tab \<Rightarrow>
          (case engine_text w tab engine timeout of
             Some t \<Rightarrow> [\<lparr> rf_engine = e_name engine, rf_path = engine_path dir engine \<rparr>]
           | None \<Rightarrow> []))"

definition engine_event :: "world \<Rightarrow> target list \<Rightarrow> int \<Rightarrow> engine \<Rightarrow> event" where
  "engine_event w targets timeout engine =
     (let r = engine_response w targets timeout engine
      in EngineDone (e_name engine) (r_status r) (case r_chars r of None \<Rightarrow> 0 | Some n \<Rightarrow> n))"

text \<open>The entries of \<open>responseFiles\<close> that belong to the responses with the status
  \<^verbatim>\<open>ok\<close>: the engine's name and the path of its file in the run directory.\<close>

definition attached_files :: "string \<Rightarrow> response list \<Rightarrow> response_file list" where
  "attached_files dir rs =
     map (\<lambda>r. \<lparr> rf_engine = r_engine r, rf_path = path_join dir (r_slug r @ ''.md'') \<rparr>)
       (filter (\<lambda>r. r_status r = ''ok'') rs)"

text \<open>The value a completion carries, if it is normal.\<close>

definition returned :: "'a completion \<Rightarrow> 'a option" where
  "returned c = (case c of Normal v \<Rightarrow> Some v | Throw err \<Rightarrow> None)"

section \<open>Runs of equal values\<close>

text \<open>Some element that satisfies \<open>P\<close> occurs \<open>n\<close> times in a row in the list.\<close>

fun has_run :: "nat \<Rightarrow> ('a \<Rightarrow> bool) \<Rightarrow> 'a list \<Rightarrow> bool" where
  "has_run n P [] = False"
| "has_run n P (x # xs) = ((P x \<and> take n (x # xs) = replicate n x) \<or> has_run n P xs)"

text \<open>A poll that returned a non-empty text.\<close>

definition answer :: "poll \<Rightarrow> bool" where
  "answer p = (case p of EvalError \<Rightarrow> False | Evaluated v \<Rightarrow> text_of v \<noteq> [])"

definition non_empty :: "string \<Rightarrow> bool" where
  "non_empty text = (text \<noteq> [])"

section \<open>Example sessions\<close>

text \<open>A tab that shows the same answer on every poll.\<close>

definition steady :: session where
  "steady = \<lparr> connect_error = None, started = 0, page = (\<lambda>k. Evaluated (Some ''Paris'')),
               lag = (\<lambda>k. 0), close_error = None \<rparr>"

text \<open>The same tab, when the evaluations 2 and 4 are rejected.\<close>

definition flaky :: session where
  "flaky = \<lparr> connect_error = None, started = 0,
              page = (\<lambda>k. if k = 2 \<or> k = 4 then EvalError else Evaluated (Some ''Paris'')),
              lag = (\<lambda>k. 0), close_error = None \<rparr>"

text \<open>A tab whose answer is still growing.\<close>

definition growing :: session where
  "growing = \<lparr> connect_error = None, started = 0,
                page = (\<lambda>k. Evaluated (Some (replicate (Suc k) CHR ''a''))),
                lag = (\<lambda>k. 0), close_error = None \<rparr>"

text \<open>A tab in which every evaluation is rejected.\<close>

definition broken :: session where
  "broken = \<lparr> connect_error = None, started = 0, page = (\<lambda>k. EvalError),
               lag = (\<lambda>k. 0), close_error = Some ''closed'' \<rparr>"

section \<open>Example runs\<close>

definition chatgpt_tab :: target where
  "chatgpt_tab = \<lparr> t_type = ''page'', t_url = ''https://chatgpt.com/c/1'' \<rparr>"

definition claude_tab :: target where
  "claude_tab = \<lparr> t_type = ''page'', t_url = ''https://claude.ai/chat/2'' \<rparr>"

text \<open>A browser with tabs of two engines, both showing a finished answer; with one
  such tab; and with one tab whose answer is still growing at the deadline.\<close>

definition two_tabs :: world where
  "two_tabs =
     \<lparr> dirname = ''.'', listed = Normal [chatgpt_tab, claude_tab],
       extracted_query = ''What is the capital of France?'',
       cdp = (\<lambda>tab engine. steady),
       now_folder = morning, now_prompt = morning, now_engine = (\<lambda>engine. morning),
       now_synthesis = next_second,
       claude = (\<lambda>query paths. Normal ''Both say Paris.''),
       on_disk = (\<lambda>path. False),
       viewer = (\<lambda>dir query rs synth. Normal ''<html></html>'') \<rparr>"

definition one_tab :: world where
  "one_tab = two_tabs \<lparr> listed := Normal [chatgpt_tab] \<rparr>"

definition slow_tab :: world where
  "slow_tab = one_tab \<lparr> cdp := (\<lambda>tab engine. growing) \<rparr>"

definition quick :: opts where
  "quick = \<lparr> opt_timeout = Some 8, opt_doSynthesize = None \<rparr>"

definition quicker :: opts where
  "quicker = \<lparr> opt_timeout = Some 6, opt_doSynthesize = None \<rparr>"

section \<open>Properties of the extractor\<close>

lemma poll_loop_run_polls:
  "poll_loop s deadline k now st = run_polls (polls_before s deadline k now) st"
proof (induction s deadline k now st rule: poll_loop.induct)
  case (1 s deadline k now st)
  show ?case
  proof (cases "now < deadline")
    case True
    then show ?thesis
      using "1.IH" [OF True]
      by (subst poll_loop.simps, subst polls_before.simps) (simp split: step.splits)
  next
    case False
    then show ?thesis
      by (subst poll_loop.simps, subst polls_before.simps) simp
  qed
qed

lemma run_polls_append:
  "run_polls (xs @ ys) st =
     (case run_polls xs st of Returned t \<Rightarrow> Returned t | Deadline st' \<Rightarrow> run_polls ys st')"
  by (induction xs arbitrary: st) (auto split: step.splits)

lemma observed_append: "observed (xs @ ys) = observed xs @ observed ys"
  by (induction xs rule: observed.induct) auto

lemma extractFromTab_connected:
  "connect_error s = None \<Longrightarrow>
   outcome (extractFromTab s timeoutSec) =
     (case run_polls (polling_run s timeoutSec) initial of
        Returned text \<Rightarrow> Normal (Some text)
      | Deadline st \<Rightarrow>
          if lastText st = [] then Normal None
          else Normal (Some (lastText st @ incomplete_note)))"
  by (simp add: extractFromTab_def extract_try_def extract_finally_def try_catch_def
      try_finally_def client_close_def polling_run_def poll_loop_run_polls
      split: loop_exit.splits option.splits)

lemma extractFromTab_refused:
  "connect_error s = Some msg \<Longrightarrow> outcome (extractFromTab s timeoutSec) = Normal None"
  by (simp add: extractFromTab_def extract_try_def extract_finally_def try_catch_def
      try_finally_def)

text \<open>The three ways a poll acts on the state.\<close>

lemma poll_body_error: "poll_body EvalError st = Continue st"
  by (simp add: poll_body_def)

lemma poll_body_match:
  "text_of v = lastText st \<Longrightarrow> lastText st \<noteq> [] \<Longrightarrow>
   poll_body (Evaluated v) st =
     (if STABLE_CHECKS \<le> stableCount st + 1 then Return (lastText st)
      else Continue (st\<lparr>stableCount := stableCount st + 1\<rparr>))"
  by (simp add: poll_body_def Let_def)

lemma poll_body_change:
  "text_of v \<noteq> lastText st \<or> text_of v = [] \<Longrightarrow>
   poll_body (Evaluated v) st =
     Continue \<lparr> lastText = (if text_of v = [] then lastText st else text_of v), stableCount = 0 \<rparr>"
  by (auto simp add: poll_body_def Let_def)

lemma text_of_Some_iff: "t \<noteq> [] \<Longrightarrow> text_of v = t \<longleftrightarrow> v = Some t"
  by (cases v) (auto simp: text_of_def)

subsection \<open>No answer\<close>

lemma run_polls_empty:
  "\<forall>t \<in> set (observed ps). t = [] \<Longrightarrow> lastText st = [] \<Longrightarrow>
   \<exists>st'. run_polls ps st = Deadline st' \<and> lastText st' = []"
proof (induction ps arbitrary: st)
  case Nil
  then show ?case by simp
next
  case (Cons p ps)
  show ?case
  proof (cases p)
    case EvalError
    with Cons show ?thesis by (simp add: poll_body_error)
  next
    case (Evaluated v)
    with Cons.prems have "text_of v = []" by simp
    then have "poll_body p st = Continue \<lparr> lastText = lastText st, stableCount = 0 \<rparr>"
      using Evaluated poll_body_change [of v st] by simp
    moreover have "\<exists>st'. run_polls ps \<lparr> lastText = lastText st, stableCount = 0 \<rparr> = Deadline st'
        \<and> lastText st' = []"
      using Cons.prems Evaluated by (intro Cons.IH) auto
    ultimately show ?thesis by simp
  qed
qed

lemma observed_errors: "\<forall>p \<in> set ps. p = EvalError \<Longrightarrow> observed ps = []"
  by (induction ps) auto

text \<open>
  Claim C5. When every poll made before the deadline is rejected or returns the empty
  text (or no value), \<^verbatim>\<open>extractFromTab\<close> returns \<^verbatim>\<open>null\<close>, "no answer found", and
  not an annotated partial text; this covers the run in which every evaluation is
  rejected. A poll that returns the empty text leaves \<open>lastText\<close> as it was.
\<close>

theorem no_answer_found:
  "((\<forall>t \<in> set (observed (polling_run s timeoutSec)). t = []) \<longrightarrow>
      outcome (extractFromTab s timeoutSec) = Normal None) \<and>
   ((\<forall>p \<in> set (polling_run s timeoutSec). p = EvalError) \<longrightarrow>
      outcome (extractFromTab s timeoutSec) = Normal None) \<and>
   (text_of v = [] \<longrightarrow>
      (\<exists>st'. poll_body (Evaluated v) st = Continue st' \<and> lastText st' = lastText st))"
proof -
  have empty: "outcome (extractFromTab s timeoutSec) = Normal None"
    if h: "\<forall>t \<in> set (observed (polling_run s timeoutSec)). t = []"
  proof (cases "connect_error s")
    case None
    obtain st' where "run_polls (polling_run s timeoutSec) initial = Deadline st'"
      and "lastText st' = []"
      using h run_polls_empty [of "polling_run s timeoutSec" initial]
      by (auto simp: initial_def)
    then show ?thesis by (simp add: extractFromTab_connected [OF None])
  next
    case (Some msg)
    then show ?thesis by (rule extractFromTab_refused)
  qed
  moreover have "outcome (extractFromTab s timeoutSec) = Normal None"
    if "\<forall>p \<in> set (polling_run s timeoutSec). p = EvalError"
    using empty observed_errors [OF that] by simp
  moreover have "\<exists>st'. poll_body (Evaluated v) st = Continue st' \<and> lastText st' = lastText st"
    if "text_of v = []"
    using that poll_body_change [of v st] by simp
  ultimately show ?thesis by blast
qed

lemma polling_run_broken: "polling_run broken 6 = [EvalError, EvalError, EvalError]"
  by (simp add: polling_run_def broken_def polls_before.simps POLL_INTERVAL_def)

theorem no_answer_found_witness:
  "polling_run broken 6 = [EvalError, EvalError, EvalError] \<and>
   observed (polling_run broken 6) = [] \<and>
   outcome (extractFromTab broken 6) = Normal None \<and>
   text_of None = [] \<and>
   (\<exists>st'. poll_body (Evaluated None) \<lparr> lastText = ''Paris'', stableCount = 2 \<rparr> = Continue st'
      \<and> lastText st' = ''Paris'')"
  using no_answer_found [of broken 6 None "\<lparr> lastText = ''Paris'', stableCount = 2 \<rparr>"]
  by (simp add: polling_run_broken text_of_def)

subsection \<open>Exceptions and the client\<close>

text \<open>
  Claim C9. For every session and timeout \<^verbatim>\<open>extractFromTab\<close> completes normally, with
  a string or \<^verbatim>\<open>null\<close>: a refused connection and a rejected evaluation are
  absorbed, and so is a rejected \<^verbatim>\<open>close\<close>. The client is opened exactly when the
  connection is made, and whenever it was opened \<^verbatim>\<open>close\<close> is called once, whichever
  way the \<^verbatim>\<open>try\<close> block ended.
\<close>

theorem extractFromTab_absorbs:
  "(\<exists>r. outcome (extractFromTab s timeoutSec) = Normal r) \<and>
   opened (extractFromTab s timeoutSec) = (connect_error s = None) \<and>
   close_calls (extractFromTab s timeoutSec) =
     (if opened (extractFromTab s timeoutSec) then 1 else 0)"
  by (auto simp add: extractFromTab_def extract_try_def extract_finally_def try_catch_def
      try_finally_def client_close_def Let_def
      split: loop_exit.splits option.splits prod.splits)

subsection \<open>Stable results\<close>

lemma run_polls_Returned:
  "run_polls ps st = Returned v \<Longrightarrow>
   \<exists>pre post st'. ps = pre @ Evaluated (Some v) # post \<and> run_polls pre st = Deadline st' \<and>
      lastText st' = v \<and> v \<noteq> [] \<and> STABLE_CHECKS \<le> stableCount st' + 1"
proof (induction ps arbitrary: st)
  case Nil
  then show ?case by simp
next
  case (Cons p ps)
  show ?case
  proof (cases "poll_body p st")
    case (Return t)
    with Cons.prems have v: "t = v" by simp
    from Return obtain w where p: "p = Evaluated w"
      by (cases p) (auto simp: poll_body_error)
    have match: "text_of w = lastText st \<and> text_of w \<noteq> []"
      using Return p poll_body_change [of w st] by (cases "text_of w = lastText st") auto
    then have "t = lastText st" and "STABLE_CHECKS \<le> stableCount st + 1"
      using Return p poll_body_match [of w st] by (auto split: if_splits)
    moreover have "w = Some v"
      using match v \<open>t = lastText st\<close> by (cases w) (auto simp: text_of_def)
    ultimately have "p # ps = [] @ Evaluated (Some v) # ps \<and> run_polls [] st = Deadline st \<and>
        lastText st = v \<and> v \<noteq> [] \<and> STABLE_CHECKS \<le> stableCount st + 1"
      using p v match by auto
    then show ?thesis by blast
  next
    case (Continue st1)
    with Cons.prems have "run_polls ps st1 = Returned v" by simp
    from Cons.IH [OF this] obtain pre post st' where
      "ps = pre @ Evaluated (Some v) # post" "run_polls pre st1 = Deadline st'"
      "lastText st' = v" "v \<noteq> []" "STABLE_CHECKS \<le> stableCount st' + 1"
      by blast
    then have "p # ps = (p # pre) @ Evaluated (Some v) # post \<and>
        run_polls (p # pre) st = Deadline st' \<and>
        lastText st' = v \<and> v \<noteq> [] \<and> STABLE_CHECKS \<le> stableCount st' + 1"
      using Continue by simp
    then show ?thesis by blast
  qed
qed

text \<open>The counter never exceeds the number of polls that last returned \<open>lastText\<close>;
  \<open>h\<close> is what was observed before.\<close>

lemma stable_trail:
  "run_polls ps st = Deadline st' \<Longrightarrow>
   take (stableCount st) (rev h) = replicate (stableCount st) (lastText st) \<Longrightarrow>
   take (stableCount st') (rev (h @ observed ps)) = replicate (stableCount st') (lastText st')"
proof (induction ps arbitrary: st h)
  case Nil
  then show ?case by simp
next
  case (Cons p ps)
  show ?case
  proof (cases p)
    case EvalError
    with Cons show ?thesis by (simp add: poll_body_error)
  next
    case (Evaluated w)
    show ?thesis
    proof (cases "text_of w = lastText st \<and> lastText st \<noteq> []")
      case True
      then have body: "poll_body p st =
          (if STABLE_CHECKS \<le> stableCount st + 1 then Return (lastText st)
           else Continue (st\<lparr>stableCount := stableCount st + 1\<rparr>))"
        using Evaluated poll_body_match [of w st] by simp
      with Cons.prems(1) have small: "\<not> STABLE_CHECKS \<le> stableCount st + 1"
        by (auto split: if_splits)
      let ?st1 = "st\<lparr>stableCount := stableCount st + 1\<rparr>"
      have run: "run_polls ps ?st1 = Deadline st'"
        using Cons.prems(1) body small by simp
      have "take (stableCount ?st1) (rev (h @ [text_of w])) =
          replicate (stableCount ?st1) (lastText ?st1)"
        using Cons.prems(2) True by simp
      from Cons.IH [OF run this] show ?thesis
        using Evaluated by simp
    next
      case False
      let ?st1 = "\<lparr> lastText = (if text_of w = [] then lastText st else text_of w),
                    stableCount = 0 \<rparr>"
      have body: "poll_body p st = Continue ?st1"
        using False Evaluated poll_body_change [of w st] by auto
      then have run: "run_polls ps ?st1 = Deadline st'"
        using Cons.prems(1) by simp
      have "take (stableCount ?st1) (rev (h @ [text_of w])) =
          replicate (stableCount ?st1) (lastText ?st1)"
        by simp
      from Cons.IH [OF run this] show ?thesis
        using Evaluated by simp
    qed
  qed
qed

lemma take_replicate_le:
  "take k xs = replicate k v \<Longrightarrow> j \<le> k \<Longrightarrow> take j xs = replicate j v"
proof -
  assume a: "take k xs = replicate k v" and le: "j \<le> k"
  have "take j xs = take j (take k xs)" using le by (simp add: min_def)
  also have "\<dots> = take j (replicate k v)" using a by simp
  also have "\<dots> = replicate j v" using le by (simp add: min_def)
  finally show ?thesis .
qed

text \<open>
  Claim C4. A poll whose text differs from \<open>lastText\<close> sets the stability counter to 0,
  whatever it was. And when the loop returns a stable result \<open>v\<close>, it does so at a poll
  that returned \<open>v\<close>, no earlier poll having ended the loop, and the three most recent
  values observed up to and including that poll are all \<open>v\<close>: the value did not change
  on the most recent poll.
\<close>

theorem stable_result_unchanged:
  "(text_of w \<noteq> lastText st \<longrightarrow>
      (\<exists>st'. poll_body (Evaluated w) st = Continue st' \<and> stableCount st' = 0)) \<and>
   (connect_error s = None \<and>
    poll_loop s (started s + timeoutSec * 1000) 0 (started s) initial = Returned v \<longrightarrow>
      outcome (extractFromTab s timeoutSec) = Normal (Some v) \<and> v \<noteq> [] \<and>
      (\<exists>pre post st'. polling_run s timeoutSec = pre @ Evaluated (Some v) # post \<and>
         run_polls pre initial = Deadline st' \<and>
         take 3 (rev (observed (pre @ [Evaluated (Some v)]))) = [v, v, v]))"
proof (intro conjI impI)
  assume "text_of w \<noteq> lastText st"
  then show "\<exists>st'. poll_body (Evaluated w) st = Continue st' \<and> stableCount st' = 0"
    using poll_body_change [of w st] by simp
next
  assume a: "connect_error s = None \<and>
    poll_loop s (started s + timeoutSec * 1000) 0 (started s) initial = Returned v"
  then have ret: "run_polls (polling_run s timeoutSec) initial = Returned v"
    by (simp add: polling_run_def poll_loop_run_polls)
  then show "outcome (extractFromTab s timeoutSec) = Normal (Some v)"
    using a by (simp add: extractFromTab_connected)
  from run_polls_Returned [OF ret] obtain pre post st' where
    split: "polling_run s timeoutSec = pre @ Evaluated (Some v) # post"
    and pre: "run_polls pre initial = Deadline st'"
    and lt: "lastText st' = v" and ne: "v \<noteq> []" and sc: "STABLE_CHECKS \<le> stableCount st' + 1"
    by blast
  show "v \<noteq> []" by (rule ne)
  have "take (stableCount st') (rev ([] @ observed pre)) = replicate (stableCount st') (lastText st')"
    by (rule stable_trail [OF pre]) (simp add: initial_def)
  moreover have "2 \<le> stableCount st'"
    using sc by (simp add: STABLE_CHECKS_def)
  ultimately have "take 2 (rev (observed pre)) = replicate 2 v"
    using lt take_replicate_le [of "stableCount st'" "rev (observed pre)" v 2] by simp
  then have "take 3 (rev (observed (pre @ [Evaluated (Some v)]))) = [v, v, v]"
    by (simp add: observed_append text_of_def numeral_3_eq_3 numeral_2_eq_2)
  with split pre
  show "\<exists>pre post st'. polling_run s timeoutSec = pre @ Evaluated (Some v) # post \<and>
         run_polls pre initial = Deadline st' \<and>
         take 3 (rev (observed (pre @ [Evaluated (Some v)]))) = [v, v, v]"
    by blast
qed

lemma polling_run_steady_8:
  "polling_run steady 8 = replicate 4 (Evaluated (Some ''Paris''))"
  by (simp add: polling_run_def steady_def polls_before.simps POLL_INTERVAL_def eval_nat_numeral)

theorem stable_result_unchanged_witness:
  "text_of (Some ''Paris, France'') \<noteq> lastText \<lparr> lastText = ''Paris'', stableCount = 2 \<rparr> \<and>
   (\<exists>st'. poll_body (Evaluated (Some ''Paris, France'')) \<lparr> lastText = ''Paris'', stableCount = 2 \<rparr>
      = Continue st' \<and> stableCount st' = 0) \<and>
   connect_error steady = None \<and>
   poll_loop steady (started steady + 8 * 1000) 0 (started steady) initial = Returned ''Paris'' \<and>
   outcome (extractFromTab steady 8) = Normal (Some ''Paris'') \<and>
   (\<exists>pre post st'. polling_run steady 8 = pre @ Evaluated (Some ''Paris'') # post \<and>
      run_polls pre initial = Deadline st' \<and>
      take 3 (rev (observed (pre @ [Evaluated (Some ''Paris'')]))) = [''Paris'', ''Paris'', ''Paris''])"
proof -
  have 1: "text_of (Some ''Paris, France'') \<noteq> lastText \<lparr> lastText = ''Paris'', stableCount = 2 \<rparr>"
    by (simp add: text_of_def)
  have 2: "connect_error steady = None" by (simp add: steady_def)
  have 3: "poll_loop steady (started steady + 8 * 1000) 0 (started steady) initial = Returned ''Paris''"
    using polling_run_steady_8
    by (simp add: poll_loop_run_polls polling_run_def eval_nat_numeral poll_body_def text_of_def
        initial_def STABLE_CHECKS_def)
  show ?thesis
    using 1 2 3 stable_result_unchanged [of "Some ''Paris, France''"
        "\<lparr> lastText = ''Paris'', stableCount = 2 \<rparr>" steady 8 "''Paris''"]
    by blast
qed

subsection \<open>How many equal polls make a stable result\<close>

lemma run_polls_matching:
  "lastText st = v \<Longrightarrow> v \<noteq> [] \<Longrightarrow> STABLE_CHECKS \<le> stableCount st + n \<Longrightarrow> 0 < n \<Longrightarrow>
   run_polls (replicate n (Evaluated (Some v)) @ post) st = Returned v"
proof (induction n arbitrary: st)
  case 0
  then show ?case by simp
next
  case (Suc n)
  have body: "poll_body (Evaluated (Some v)) st =
      (if STABLE_CHECKS \<le> stableCount st + 1 then Return v
       else Continue (st\<lparr>stableCount := stableCount st + 1\<rparr>))"
    using Suc.prems(1,2) poll_body_match [of "Some v" st] by (simp add: text_of_def)
  show ?case
  proof (cases "STABLE_CHECKS \<le> stableCount st + 1")
    case True
    with body show ?thesis by simp
  next
    case False
    let ?st1 = "st\<lparr>stableCount := stableCount st + 1\<rparr>"
    from False Suc.prems(3) have "0 < n" by simp
    moreover have "STABLE_CHECKS \<le> stableCount ?st1 + n"
      using Suc.prems(3) by simp
    ultimately have "run_polls (replicate n (Evaluated (Some v)) @ post) ?st1 = Returned v"
      using Suc.prems(1,2) by (intro Suc.IH) simp_all
    with body False show ?thesis by simp
  qed
qed

lemma run_polls_new_value:
  assumes "lastText st \<noteq> v" and "v \<noteq> []" and "STABLE_CHECKS < n"
  shows "run_polls (replicate n (Evaluated (Some v)) @ post) st = Returned v"
proof -
  from assms(3) obtain m where n: "n = Suc m" and m: "STABLE_CHECKS \<le> m"
    by (cases n) auto
  let ?st1 = "\<lparr> lastText = v, stableCount = 0 \<rparr>"
  have "poll_body (Evaluated (Some v)) st = Continue ?st1"
    using assms(1,2) poll_body_change [of "Some v" st] by (simp add: text_of_def)
  moreover have "run_polls (replicate m (Evaluated (Some v)) @ post) ?st1 = Returned v"
    using assms(2) m by (intro run_polls_matching) (simp_all add: STABLE_CHECKS_def)
  ultimately show ?thesis by (simp add: n)
qed

text \<open>
  Claim C1, as the code has it. When the polls made before the deadline contain four
  polls in a row that return the same non-empty value (three, when the value already
  is \<open>lastText\<close>), and no earlier poll ended the loop, \<^verbatim>\<open>extractFromTab\<close> returns that
  value, without the note, whatever the later polls would have returned.
\<close>

theorem stable_after_four_polls:
  assumes "connect_error s = None"
    and "polling_run s timeoutSec = pre @ replicate n (Evaluated (Some v)) @ post"
    and "run_polls pre initial = Deadline st"
    and "v \<noteq> []"
    and "(if lastText st = v then 3 else 4) \<le> n"
  shows "outcome (extractFromTab s timeoutSec) = Normal (Some v)"
proof -
  have "run_polls (replicate n (Evaluated (Some v)) @ post) st = Returned v"
  proof (cases "lastText st = v")
    case True
    with assms(4,5) show ?thesis
      by (intro run_polls_matching) (simp_all add: STABLE_CHECKS_def)
  next
    case False
    with assms(4,5) show ?thesis
      by (intro run_polls_new_value) (simp_all add: STABLE_CHECKS_def)
  qed
  then have "run_polls (polling_run s timeoutSec) initial = Returned v"
    using assms(2,3) by (simp add: run_polls_append)
  then show ?thesis
    using assms(1) by (simp add: extractFromTab_connected)
qed

lemma polling_run_steady_10:
  "polling_run steady 10 = replicate 5 (Evaluated (Some ''Paris''))"
  by (simp add: polling_run_def steady_def polls_before.simps POLL_INTERVAL_def eval_nat_numeral)

theorem stable_after_four_polls_witness:
  "connect_error steady = None \<and>
   polling_run steady 10 = [] @ replicate 4 (Evaluated (Some ''Paris'')) @ [Evaluated (Some ''Paris'')] \<and>
   run_polls [] initial = Deadline initial \<and>
   ''Paris'' \<noteq> [] \<and>
   (if lastText initial = ''Paris'' then 3 else 4) \<le> (4::nat) \<and>
   outcome (extractFromTab steady 10) = Normal (Some ''Paris'')"
proof -
  have 1: "connect_error steady = None" by (simp add: steady_def)
  have 2: "polling_run steady 10 =
      [] @ replicate 4 (Evaluated (Some ''Paris'')) @ [Evaluated (Some ''Paris'')]"
    by (simp add: polling_run_steady_10 eval_nat_numeral)
  have 3: "run_polls [] initial = Deadline initial" by simp
  have 4: "''Paris'' \<noteq> []" by simp
  have 5: "(if lastText initial = ''Paris'' then 3 else 4) \<le> (4::nat)" by (simp add: initial_def)
  show ?thesis
    using 1 2 3 4 5 stable_after_four_polls [OF 1 2 3 4 5] by blast
qed

text \<open>Claim C1, as it is stated, fails on a run of exactly three polls: the first poll
  only records the value, the next two match it, and at the deadline the counter is 2.
  The result is the value with the note appended.\<close>

theorem three_equal_polls_not_stable:
  "connect_error steady = None \<and>
   polling_run steady 6 = replicate 3 (Evaluated (Some ''Paris'')) \<and>
   outcome (extractFromTab steady 6) = Normal (Some (''Paris'' @ incomplete_note)) \<and>
   outcome (extractFromTab steady 6) \<noteq> Normal (Some ''Paris'')"
proof -
  have 1: "connect_error steady = None" by (simp add: steady_def)
  have 2: "polling_run steady 6 = replicate 3 (Evaluated (Some ''Paris''))"
    by (simp add: polling_run_def steady_def polls_before.simps POLL_INTERVAL_def eval_nat_numeral)
  have 3: "outcome (extractFromTab steady 6) = Normal (Some (''Paris'' @ incomplete_note))"
    by (simp add: extractFromTab_connected [OF 1] 2 eval_nat_numeral poll_body_def text_of_def
        initial_def STABLE_CHECKS_def)
  show ?thesis using 1 2 3 by (simp add: incomplete_note_def)
qed

subsection \<open>Partial results at the deadline\<close>

lemma has_run_suffix: "has_run n P ys \<Longrightarrow> has_run n P (xs @ ys)"
  by (induction xs) auto

lemma has_run_replicate:
  assumes "P x" and "n \<le> m" and "0 < m"
  shows "has_run n P (replicate m x @ ys)"
proof -
  from assms(3) obtain k where m: "m = Suc k" by (cases m) auto
  have "take n (replicate m x @ ys) = replicate n x"
    using assms(2) by (simp add: min_def)
  moreover have "replicate m x @ ys = x # (replicate k x @ ys)"
    by (simp add: m)
  ultimately show ?thesis
    using assms(1) by (metis has_run.simps(2))
qed

lemma run_polls_never_stable:
  "\<not> has_run STABLE_CHECKS non_empty (replicate (stableCount st) (lastText st) @ observed ps) \<Longrightarrow>
   \<exists>st'. run_polls ps st = Deadline st'"
proof (induction ps arbitrary: st)
  case Nil
  then show ?case by simp
next
  case (Cons p ps)
  show ?case
  proof (cases p)
    case EvalError
    with Cons show ?thesis by (simp add: poll_body_error)
  next
    case (Evaluated w)
    show ?thesis
    proof (cases "text_of w = lastText st \<and> lastText st \<noteq> []")
      case True
      let ?st1 = "st\<lparr>stableCount := stableCount st + 1\<rparr>"
      have same: "replicate (stableCount st) (lastText st) @ observed (p # ps) =
          replicate (stableCount ?st1) (lastText ?st1) @ observed ps"
        using True Evaluated by (simp add: replicate_app_Cons_same)
      have small: "\<not> STABLE_CHECKS \<le> stableCount st + 1"
      proof
        assume "STABLE_CHECKS \<le> stableCount st + 1"
        then have "has_run STABLE_CHECKS non_empty
            (replicate (stableCount ?st1) (lastText ?st1) @ observed ps)"
          using True by (intro has_run_replicate) (simp_all add: non_empty_def)
        with Cons.prems same show False by simp
      qed
      then have "poll_body p st = Continue ?st1"
        using True Evaluated poll_body_match [of w st] by simp
      moreover have "\<exists>st'. run_polls ps ?st1 = Deadline st'"
        using Cons.prems same by (intro Cons.IH) simp
      ultimately show ?thesis by simp
    next
      case False
      let ?st1 = "\<lparr> lastText = (if text_of w = [] then lastText st else text_of w),
                    stableCount = 0 \<rparr>"
      have "poll_body p st = Continue ?st1"
        using False Evaluated poll_body_change [of w st] by auto
      moreover have "\<not> has_run STABLE_CHECKS non_empty (observed ps)"
        using Cons.prems Evaluated
          has_run_suffix [of STABLE_CHECKS non_empty "observed ps"
            "replicate (stableCount st) (lastText st) @ [text_of w]"]
        by auto
      then have "\<exists>st'. run_polls ps ?st1 = Deadline st'"
        by (intro Cons.IH) simp
      ultimately show ?thesis by simp
    qed
  qed
qed

lemma run_polls_lastText:
  "run_polls ps st = Deadline st' \<Longrightarrow>
   lastText st' = last (lastText st # filter non_empty (observed ps))"
proof (induction ps arbitrary: st)
  case Nil
  then show ?case by simp
next
  case (Cons p ps)
  show ?case
  proof (cases p)
    case EvalError
    with Cons show ?thesis by (simp add: poll_body_error)
  next
    case (Evaluated w)
    show ?thesis
    proof (cases "text_of w = lastText st \<and> lastText st \<noteq> []")
      case True
      let ?st1 = "st\<lparr>stableCount := stableCount st + 1\<rparr>"
      have "poll_body p st =
          (if STABLE_CHECKS \<le> stableCount st + 1 then Return (lastText st) else Continue ?st1)"
        using True Evaluated poll_body_match [of w st] by simp
      with Cons.prems have "run_polls ps ?st1 = Deadline st'"
        by (auto split: if_splits)
      from Cons.IH [OF this] show ?thesis
        using True Evaluated by (simp add: non_empty_def)
    next
      case False
      let ?st1 = "\<lparr> lastText = (if text_of w = [] then lastText st else text_of w),
                    stableCount = 0 \<rparr>"
      have "poll_body p st = Continue ?st1"
        using False Evaluated poll_body_change [of w st] by auto
      with Cons.prems have "run_polls ps ?st1 = Deadline st'" by simp
      from Cons.IH [OF this] show ?thesis
        using Evaluated by (simp add: non_empty_def)
    qed
  qed
qed

text \<open>
  Claim C3, as the code has it. Rejected polls are skipped: they change neither
  \<open>lastText\<close> nor the counter. When some non-empty text is observed before the deadline
  and no non-empty value is returned by three evaluations in a row, rejected ones left
  out, \<^verbatim>\<open>extractFromTab\<close> returns the last non-empty value observed, followed by the
  note that the response may be incomplete.
\<close>

theorem partial_result_at_deadline:
  assumes "connect_error s = None"
    and "\<exists>t \<in> set (observed (polling_run s timeoutSec)). non_empty t"
    and "\<not> has_run 3 non_empty (observed (polling_run s timeoutSec))"
  shows "outcome (extractFromTab s timeoutSec) =
     Normal (Some (last (filter non_empty (observed (polling_run s timeoutSec))) @ incomplete_note))"
proof -
  let ?obs = "observed (polling_run s timeoutSec)"
  have "\<not> has_run STABLE_CHECKS non_empty
      (replicate (stableCount initial) (lastText initial) @ ?obs)"
    using assms(3) by (simp add: initial_def STABLE_CHECKS_def)
  then obtain st' where run: "run_polls (polling_run s timeoutSec) initial = Deadline st'"
    using run_polls_never_stable by blast
  have some: "filter non_empty ?obs \<noteq> []"
    using assms(2) by (simp add: filter_empty_conv)
  then have last_ne: "last (filter non_empty ?obs) \<in> set (filter non_empty ?obs)"
    by (rule last_in_set)
  have "lastText st' = last (filter non_empty ?obs)"
    using run_polls_lastText [OF run] some by simp
  moreover have "lastText st' \<noteq> []"
    using calculation last_ne by (auto simp: non_empty_def)
  ultimately show ?thesis
    using run assms(1) by (simp add: extractFromTab_connected)
qed

lemma polling_run_growing: "polling_run growing 6 =
    [Evaluated (Some ''a''), Evaluated (Some ''aa''), Evaluated (Some ''aaa'')]"
  by (simp add: polling_run_def growing_def polls_before.simps POLL_INTERVAL_def eval_nat_numeral)

theorem partial_result_at_deadline_witness:
  "connect_error growing = None \<and>
   observed (polling_run growing 6) = [''a'', ''aa'', ''aaa''] \<and>
   \<not> has_run 3 non_empty (observed (polling_run growing 6)) \<and>
   outcome (extractFromTab growing 6) = Normal (Some (''aaa'' @ incomplete_note))"
proof -
  have 1: "connect_error growing = None" by (simp add: growing_def)
  have obs: "observed (polling_run growing 6) = [''a'', ''aa'', ''aaa'']"
    by (simp add: polling_run_growing text_of_def)
  have 2: "\<exists>t \<in> set (observed (polling_run growing 6)). non_empty t"
    by (simp add: obs non_empty_def)
  have 3: "\<not> has_run 3 non_empty (observed (polling_run growing 6))"
    by (simp add: obs eval_nat_numeral)
  show ?thesis
    using 1 obs 3 partial_result_at_deadline [OF 1 2 3] by (simp add: non_empty_def)
qed

text \<open>Claim C3, as it is stated, fails when rejected polls fall between equal ones: of
  the six polls no three in a row return the same value, a non-empty text is observed,
  and the result is the stable value, without the note.\<close>

theorem rejected_polls_do_not_reset:
  "connect_error flaky = None \<and>
   polling_run flaky 12 =
     [Evaluated (Some ''Paris''), Evaluated (Some ''Paris''), EvalError,
      Evaluated (Some ''Paris''), EvalError, Evaluated (Some ''Paris'')] \<and>
   \<not> has_run 3 answer (polling_run flaky 12) \<and>
   outcome (extractFromTab flaky 12) = Normal (Some ''Paris'') \<and>
   outcome (extractFromTab flaky 12) \<noteq> Normal (Some (''Paris'' @ incomplete_note))"
proof -
  have 1: "connect_error flaky = None" by (simp add: flaky_def)
  have 2: "polling_run flaky 12 =
     [Evaluated (Some ''Paris''), Evaluated (Some ''Paris''), EvalError,
      Evaluated (Some ''Paris''), EvalError, Evaluated (Some ''Paris'')]"
    by (simp add: polling_run_def flaky_def polls_before.simps POLL_INTERVAL_def)
  have 3: "\<not> has_run 3 answer (polling_run flaky 12)"
    by (simp add: 2 eval_nat_numeral)
  have 4: "outcome (extractFromTab flaky 12) = Normal (Some ''Paris'')"
    by (simp add: extractFromTab_connected [OF 1] 2 poll_body_def text_of_def
        initial_def STABLE_CHECKS_def)
  show ?thesis using 1 2 3 4 by (simp add: incomplete_note_def)
qed

section \<open>Properties of slugify\<close>

lemma hyphen_not_alnum: "hyphen c \<Longrightarrow> \<not> alnum c"
  by (simp add: hyphen_def alnum_def)

lemma toLowerCase_char_fixed: "alnum c \<or> hyphen c \<Longrightarrow> toLowerCase_char c = c"
  by (auto simp: toLowerCase_char_def alnum_def hyphen_def Let_def)

subsection \<open>The shape of a slug\<close>

lemma replace_starts_alnum:
  "s = [] \<or> alnum (hd s) \<Longrightarrow> replace_non_alnum s = [] \<or> alnum (hd (replace_non_alnum s))"
  by (cases s) auto

lemma dropWhile_not_alnum_starts:
  "dropWhile (\<lambda>d. \<not> alnum d) cs = [] \<or> alnum (hd (dropWhile (\<lambda>d. \<not> alnum d) cs))"
  using hd_dropWhile [of "\<lambda>d. \<not> alnum d" cs] by auto

lemma single_hyphens_replace: "single_hyphens (replace_non_alnum s)"
proof (induction s rule: replace_non_alnum.induct)
  case 1
  show ?case by simp
next
  case (2 c cs)
  show ?case
  proof (cases "alnum c")
    case True
    with 2 show ?thesis by simp
  next
    case False
    let ?r = "dropWhile (\<lambda>d. \<not> alnum d) cs"
    have "replace_non_alnum ?r = [] \<or> alnum (hd (replace_non_alnum ?r))"
      by (rule replace_starts_alnum) (rule dropWhile_not_alnum_starts)
    with 2 False show ?thesis by (simp add: hyphen_def)
  qed
qed

lemma single_hyphens_take: "single_hyphens s \<Longrightarrow> single_hyphens (take n s)"
proof (induction s arbitrary: n)
  case Nil
  then show ?case by simp
next
  case (Cons c cs)
  show ?case
  proof (cases n)
    case 0
    then show ?thesis by simp
  next
    case (Suc m)
    have "take m cs = [] \<or> hd (take m cs) = hd cs"
      by (cases m; cases cs) auto
    with Cons Suc show ?thesis by auto
  qed
qed

lemma single_hyphens_dropWhile: "single_hyphens s \<Longrightarrow> single_hyphens (dropWhile P s)"
  by (induction s) auto

lemma strip_trailing_take: "strip_trailing s = take (length (strip_trailing s)) s"
proof -
  have "dropWhile hyphen (rev s) = drop (length (takeWhile hyphen (rev s))) (rev s)"
    by (rule dropWhile_eq_drop)
  then have "strip_trailing s = take (length s - length (takeWhile hyphen (rev s))) s"
    by (simp add: strip_trailing_def rev_drop)
  then show ?thesis
    by (metis length_take min.absorb2 diff_le_self)
qed

lemma single_hyphens_strip_trailing: "single_hyphens s \<Longrightarrow> single_hyphens (strip_trailing s)"
  using single_hyphens_take [of s "length (strip_trailing s)"] strip_trailing_take [of s]
  by simp

lemma strip_trailing_last: "strip_trailing s = [] \<or> \<not> hyphen (last (strip_trailing s))"
  using hd_dropWhile [of hyphen "rev s"]
  by (auto simp: strip_trailing_def last_rev)

lemma strip_trailing_nonempty: "strip_trailing s \<noteq> [] \<Longrightarrow> s \<noteq> []"
  by (auto simp: strip_trailing_def)

lemma strip_trailing_id: "s = [] \<or> \<not> hyphen (last s) \<Longrightarrow> strip_trailing s = s"
proof (cases "s = []")
  case True
  then show ?thesis by (simp add: strip_trailing_def)
next
  case False
  assume "s = [] \<or> \<not> hyphen (last s)"
  with False have "\<not> hyphen (hd (rev s))" and "rev s \<noteq> []"
    by (simp_all add: hd_rev)
  then have "dropWhile hyphen (rev s) = rev s"
    by (cases "rev s") auto
  then show ?thesis by (simp add: strip_trailing_def)
qed

lemma dropWhile_hyphen_id: "s = [] \<or> \<not> hyphen (hd s) \<Longrightarrow> dropWhile hyphen s = s"
  by (cases s) auto

lemma hd_take_prefix: "take n s \<noteq> [] \<Longrightarrow> hd (take n s) = hd s"
  by (cases n; cases s) auto

lemma single_hyphens_replace_id: "single_hyphens s \<Longrightarrow> replace_non_alnum s = s"
proof (induction s)
  case Nil
  then show ?case by simp
next
  case (Cons c cs)
  show ?case
  proof (cases "alnum c")
    case True
    with Cons show ?thesis by simp
  next
    case False
    with Cons.prems have c: "c = CHR ''-''" and next_ok: "cs = [] \<or> alnum (hd cs)"
      by (auto simp: hyphen_def)
    from next_ok have "dropWhile (\<lambda>d. \<not> alnum d) cs = cs"
      by (cases cs) auto
    with Cons False c show ?thesis by simp
  qed
qed

lemma single_hyphens_lower: "single_hyphens s \<Longrightarrow> toLowerCase s = s"
  by (induction s) (auto simp: toLowerCase_def toLowerCase_char_fixed)

text \<open>What \<^verbatim>\<open>slugify\<close> returns: single hyphens between characters of the class,
  none at either end, and no more than \<open>maxLen\<close> characters.\<close>

lemma slugify_shape:
  "single_hyphens (slugify q n) \<and> length (slugify q n) \<le> n \<and>
   (slugify q n = [] \<or> \<not> hyphen (hd (slugify q n))) \<and>
   (slugify q n = [] \<or> \<not> hyphen (last (slugify q n)))"
proof -
  let ?x = "replace_non_alnum (toLowerCase q)"
  let ?y = "strip_both ?x"
  let ?z = "take n ?y"
  have slug: "slugify q n = strip_trailing ?z" by (simp add: slugify_def)
  have "single_hyphens ?y"
    by (simp add: strip_both_def single_hyphens_strip_trailing single_hyphens_dropWhile
        single_hyphens_replace)
  then have shape: "single_hyphens (strip_trailing ?z)"
    by (intro single_hyphens_strip_trailing single_hyphens_take)
  have len: "length (strip_trailing ?z) \<le> n"
    using strip_trailing_take [of ?z] by (metis length_take min.cobounded2 le_trans min.cobounded1)
  have y_hd: "?y = [] \<or> \<not> hyphen (hd ?y)"
  proof (cases "?y = []")
    case False
    have "?y = take (length ?y) (dropWhile hyphen ?x)"
      using strip_trailing_take [of "dropWhile hyphen ?x"] by (simp add: strip_both_def)
    then have "hd ?y = hd (dropWhile hyphen ?x)"
      using False hd_take_prefix by metis
    moreover have "dropWhile hyphen ?x \<noteq> []"
      using False unfolding strip_both_def by (rule strip_trailing_nonempty)
    ultimately show ?thesis
      using hd_dropWhile [of hyphen ?x] by simp
  qed simp
  have hd_ok: "strip_trailing ?z = [] \<or> \<not> hyphen (hd (strip_trailing ?z))"
  proof (cases "strip_trailing ?z = []")
    case False
    have "strip_trailing ?z = take (length (strip_trailing ?z)) ?z"
      by (rule strip_trailing_take)
    then have "hd (strip_trailing ?z) = hd ?z"
      using False hd_take_prefix by metis
    moreover have "?z \<noteq> []"
      using False by (rule strip_trailing_nonempty)
    then have "hd ?z = hd ?y" by (rule hd_take_prefix)
    moreover have "?y \<noteq> []" using \<open>?z \<noteq> []\<close> by auto
    ultimately show ?thesis using y_hd by simp
  qed simp
  show ?thesis
    using shape len hd_ok strip_trailing_last [of ?z] by (simp add: slug)
qed

lemma slugify_idempotent: "slugify (slugify q n) n = slugify q n"
proof -
  let ?s = "slugify q n"
  have shape: "single_hyphens ?s" and len: "length ?s \<le> n"
    and hd_ok: "?s = [] \<or> \<not> hyphen (hd ?s)" and last_ok: "?s = [] \<or> \<not> hyphen (last ?s)"
    using slugify_shape [of q n] by auto
  have "strip_both (replace_non_alnum (toLowerCase ?s)) = ?s"
    using shape hd_ok last_ok
    by (simp add: single_hyphens_lower single_hyphens_replace_id strip_both_def
        dropWhile_hyphen_id strip_trailing_id)
  then have "slugify ?s n = strip_trailing (take n ?s)"
    by (simp add: slugify_def)
  also have "\<dots> = ?s"
    using len last_ok by (simp add: strip_trailing_id)
  finally show ?thesis .
qed

subsection \<open>The slug is a function of the words\<close>

lemma replace_alnum_prefix:
  "\<forall>c \<in> set w. alnum c \<Longrightarrow> replace_non_alnum (w @ r) = w @ replace_non_alnum r"
  by (induction w) auto

lemma replace_word:
  "alnum c \<Longrightarrow>
   replace_non_alnum (c # cs) = (c # takeWhile alnum cs) @ replace_non_alnum (dropWhile alnum cs)"
proof -
  assume c: "alnum c"
  have "c # cs = (c # takeWhile alnum cs) @ dropWhile alnum cs" by simp
  moreover have "\<forall>d \<in> set (c # takeWhile alnum cs). alnum d"
    using c by (auto dest: set_takeWhileD)
  ultimately show ?thesis
    using replace_alnum_prefix [of "c # takeWhile alnum cs" "dropWhile alnum cs"] by simp
qed

lemma alnum_words_nonempty: "[] \<notin> set (alnum_words s)"
  by (induction s rule: alnum_words.induct) auto

lemma join_hyphen_Cons:
  "join_hyphen (w # ws) = (if ws = [] then w else w @ CHR ''-'' # join_hyphen ws)"
  by (cases ws) auto

lemma join_hyphen_empty: "[] \<notin> set ws \<Longrightarrow> join_hyphen ws = [] \<Longrightarrow> ws = []"
  by (cases ws) (auto simp: join_hyphen_Cons split: if_splits)

lemma strip_trailing_all_hyphens:
  "strip_trailing y = [] \<Longrightarrow> \<forall>c \<in> set y. hyphen c"
  by (simp add: strip_trailing_def dropWhile_eq_Nil_conv)

lemma strip_trailing_append_hyphens:
  "\<forall>c \<in> set z. hyphen c \<Longrightarrow> strip_trailing (a @ z) = strip_trailing a"
  by (simp add: strip_trailing_def dropWhile_append)

lemma strip_trailing_append:
  "strip_trailing b \<noteq> [] \<Longrightarrow> strip_trailing (a @ b) = a @ strip_trailing b"
  by (auto simp add: strip_trailing_def dropWhile_append dropWhile_eq_Nil_conv)

text \<open>A non-alphanumeric character in front changes nothing.\<close>

lemma strip_both_replace_skip:
  assumes "\<not> alnum c"
  shows "strip_both (replace_non_alnum (c # cs)) = strip_both (replace_non_alnum cs)"
proof (cases cs)
  case Nil
  then show ?thesis using assms by (simp add: strip_both_def hyphen_def strip_trailing_def)
next
  case (Cons d ds)
  show ?thesis
  proof (cases "alnum d")
    case True
    then show ?thesis using assms Cons by (simp add: strip_both_def hyphen_def)
  next
    case False
    then show ?thesis using assms Cons by simp
  qed
qed

lemma strip_both_replace_words:
  "strip_both (replace_non_alnum s) = join_hyphen (alnum_words s)"
proof (induction s rule: alnum_words.induct)
  case 1
  show ?case by (simp add: strip_both_def strip_trailing_def)
next
  case (2 c cs)
  show ?case
  proof (cases "alnum c")
    case False
    then have "strip_both (replace_non_alnum (c # cs)) = strip_both (replace_non_alnum cs)"
      by (rule strip_both_replace_skip)
    also have "\<dots> = join_hyphen (alnum_words cs)"
      using 2 False by simp
    also have "\<dots> = join_hyphen (alnum_words (c # cs))"
      using False by simp
    finally show ?thesis .
  next
    case True
    let ?w = "c # takeWhile alnum cs"
    let ?r = "dropWhile alnum cs"
    define L where "L = strip_both (replace_non_alnum (c # cs))"
    define R where "R = join_hyphen (alnum_words (c # cs))"
    have IH: "strip_both (replace_non_alnum ?r) = join_hyphen (alnum_words ?r)"
      using 2 True by simp
    have w_last: "\<not> hyphen (last ?w)"
    proof -
      have "last ?w \<in> set ?w" by (rule last_in_set) simp
      then have "alnum (last ?w)" using True by (auto dest: set_takeWhileD)
      then show ?thesis using hyphen_not_alnum by blast
    qed
    have w_strip: "strip_trailing ?w = ?w"
      using w_last by (intro strip_trailing_id) simp
    have "replace_non_alnum (c # cs) = ?w @ replace_non_alnum ?r"
      using True by (rule replace_word)
    then have "L = strip_trailing (dropWhile hyphen (?w @ replace_non_alnum ?r))"
      by (simp only: L_def strip_both_def)
    moreover have "dropWhile hyphen (?w @ replace_non_alnum ?r) = ?w @ replace_non_alnum ?r"
      using True hyphen_not_alnum [of c] by auto
    ultimately have lhs: "L = strip_trailing (?w @ replace_non_alnum ?r)"
      by simp
    have rhs: "R = join_hyphen (?w # alnum_words ?r)"
      using True by (simp add: R_def)
    have "L = R"
    proof (cases ?r)
      case Nil
      have "L = strip_trailing (?w @ [])"
        using lhs by (simp only: Nil replace_non_alnum.simps(1))
      then have "L = ?w" using w_strip by simp
      moreover have "R = join_hyphen [?w]"
        using rhs by (simp only: Nil alnum_words.simps(1))
      ultimately show ?thesis by simp
    next
      case (Cons d ds)
      have d: "\<not> alnum d"
        using hd_dropWhile [of alnum cs] Cons by auto
      let ?y = "replace_non_alnum (dropWhile (\<lambda>e. \<not> alnum e) ds)"
      have rep: "replace_non_alnum ?r = CHR ''-'' # ?y"
        using Cons d by simp
      have "?y = [] \<or> alnum (hd ?y)"
        by (rule replace_starts_alnum) (rule dropWhile_not_alnum_starts)
      then have "dropWhile hyphen ?y = ?y"
        using hyphen_not_alnum by (intro dropWhile_hyphen_id) auto
      then have y: "strip_trailing ?y = join_hyphen (alnum_words ?r)"
        using IH rep by (simp add: strip_both_def hyphen_def)
      show ?thesis
      proof (cases "strip_trailing ?y = []")
        case True
        then have "\<forall>e \<in> set (CHR ''-'' # ?y). hyphen e"
          using strip_trailing_all_hyphens by (auto simp: hyphen_def)
        then have "strip_trailing (?w @ CHR ''-'' # ?y) = ?w"
          using strip_trailing_append_hyphens [of "CHR ''-'' # ?y" ?w] w_strip by simp
        moreover have "alnum_words ?r = []"
          using True y alnum_words_nonempty join_hyphen_empty by metis
        ultimately show ?thesis using lhs rhs rep by simp
      next
        case False
        then have "strip_trailing (CHR ''-'' # ?y) = CHR ''-'' # strip_trailing ?y"
          using strip_trailing_append [of ?y "[CHR ''-'']"] by simp
        then have "strip_trailing (?w @ CHR ''-'' # ?y) = ?w @ CHR ''-'' # strip_trailing ?y"
          using strip_trailing_append [of "CHR ''-'' # ?y" ?w] by simp
        moreover have "alnum_words ?r \<noteq> []"
          using False y by auto
        ultimately show ?thesis
          using lhs rhs rep y by (simp add: join_hyphen_Cons)
      qed
    qed
    then show ?thesis by (simp only: L_def R_def)
  qed
qed

lemma slugify_words:
  "slugify q n = strip_trailing (take n (join_hyphen (alnum_words (toLowerCase q))))"
  by (simp add: slugify_def strip_both_replace_words)

text \<open>
  Claim C6, as the code has it. \<^verbatim>\<open>slugify\<close> is a function of the query and the length
  alone and it is idempotent. Two queries yield the same slug when they differ only in
  letter case, and more generally when, after lower-casing, they consist of the same
  words of letters and digits in the same order, whatever characters stand between,
  before and after the words.
\<close>

theorem slugify_idempotent_and_separator_blind:
  "slugify (slugify q n) n = slugify q n \<and>
   (q1 = q2 \<longrightarrow> slugify q1 n = slugify q2 n) \<and>
   (toLowerCase q1 = toLowerCase q2 \<longrightarrow> slugify q1 n = slugify q2 n) \<and>
   (alnum_words (toLowerCase q1) = alnum_words (toLowerCase q2) \<longrightarrow>
      slugify q1 n = slugify q2 n)"
proof (intro conjI impI)
  show "slugify (slugify q n) n = slugify q n"
    by (rule slugify_idempotent)
next
  assume "q1 = q2"
  then show "slugify q1 n = slugify q2 n" by simp
next
  assume "toLowerCase q1 = toLowerCase q2"
  then show "slugify q1 n = slugify q2 n" by (simp add: slugify_def)
next
  assume "alnum_words (toLowerCase q1) = alnum_words (toLowerCase q2)"
  then show "slugify q1 n = slugify q2 n" by (simp add: slugify_words)
qed

theorem slugify_idempotent_and_separator_blind_witness:
  "slugify (slugify ''What is the capital of France?'' 60) 60 = ''what-is-the-capital-of-france'' \<and>
   slugify ''What is the capital of France?'' 60 = ''what-is-the-capital-of-france'' \<and>
   toLowerCase ''WHAT IS X'' = toLowerCase ''what is x'' \<and>
   slugify ''WHAT IS X'' 60 = slugify ''what is x'' 60 \<and>
   alnum_words (toLowerCase ''Hello, world!'') = alnum_words (toLowerCase ''hello world'') \<and>
   slugify ''Hello, world!'' 60 = slugify ''hello world'' 60"
proof -
  have 1: "slugify ''What is the capital of France?'' 60 = ''what-is-the-capital-of-france''"
    by code_simp
  have 2: "toLowerCase ''WHAT IS X'' = toLowerCase ''what is x''"
    by code_simp
  have 3: "alnum_words (toLowerCase ''Hello, world!'') = alnum_words (toLowerCase ''hello world'')"
    by code_simp
  show ?thesis
    using 1 2 3
      slugify_idempotent_and_separator_blind [of "''What is the capital of France?''" 60
        "''WHAT IS X''" "''WHAT IS X''"]
      slugify_idempotent_and_separator_blind [of "''x''" 60 "''WHAT IS X''" "''what is x''"]
      slugify_idempotent_and_separator_blind [of "''x''" 60 "''Hello, world!''" "''hello world''"]
    by simp
qed

text \<open>Claim C6, as it is stated, fails for punctuation inside a word: the two queries
  are equal once the punctuation is removed, and their slugs differ, because the
  apostrophe becomes a hyphen.\<close>

theorem punctuation_inside_a_word:
  "without_punctuation ''what's new'' = without_punctuation ''whats new'' \<and>
   slugify_default ''what's new'' = ''what-s-new'' \<and>
   slugify_default ''whats new'' = ''whats-new'' \<and>
   slugify_default ''what's new'' \<noteq> slugify_default ''whats new''"
  by code_simp

section \<open>Properties of folder names\<close>

lemma of_char_digit: "(of_char (digit n) :: nat) = 48 + n mod 10"
proof -
  have "(48 + n mod 10) mod 256 = 48 + n mod 10"
    by (rule mod_less) (simp add: less_le_trans [OF add_strict_left_mono [OF mod_less_divisor]])
  then show ?thesis by (simp add: digit_def)
qed

lemma digit_less: "digit a < digit b \<longleftrightarrow> a mod 10 < b mod 10"
  by (simp add: less_char_def of_char_digit)

lemma digit_eq: "digit a = digit b \<longleftrightarrow> a mod 10 = b mod 10"
proof -
  have "digit a = digit b \<longleftrightarrow> (of_char (digit a) :: nat) = of_char (digit b)"
    by simp
  then show ?thesis by (simp only: of_char_digit) simp
qed

lemma digit_not_separator: "digit n \<noteq> CHR '':''" "digit n \<noteq> CHR ''.''"
proof -
  have "(of_char (digit n) :: nat) \<noteq> of_char CHR '':''"
    unfolding of_char_digit by simp
  then show "digit n \<noteq> CHR '':''" by auto
  have "(of_char (digit n) :: nat) \<noteq> of_char CHR ''.''"
    unfolding of_char_digit by simp
  then show "digit n \<noteq> CHR ''.''" by auto
qed

lemma append_less_same_length:
  "length a = length b \<Longrightarrow> (a @ x < b @ y) = (a < b \<or> (a = b \<and> x < y))"
  for a b x y :: "'a::linorder list"
  by (induction a b rule: list_induct2) auto

text \<open>Comparing two numbers by quotient and remainder.\<close>

lemma divmod_less:
  fixes a b k :: nat
  assumes "0 < k"
  shows "a < b \<longleftrightarrow> a div k < b div k \<or> (a div k = b div k \<and> a mod k < b mod k)"
proof -
  have a: "a = k * (a div k) + a mod k" and b: "b = k * (b div k) + b mod k"
    by simp_all
  have ra: "a mod k < k" and rb: "b mod k < k"
    using assms by simp_all
  show ?thesis
  proof (cases "a div k < b div k")
    case True
    then have "k * Suc (a div k) \<le> k * (b div k)"
      by (intro mult_le_mono2) simp
    then have "k * (a div k) + k \<le> k * (b div k)"
      by simp
    then have "a < b" using a b ra by linarith
    with True show ?thesis by simp
  next
    case False
    show ?thesis
    proof (cases "a div k = b div k")
      case True
      then show ?thesis using a b by (metis nat_add_left_cancel_less less_irrefl)
    next
      case False
      with \<open>\<not> a div k < b div k\<close> have gt: "b div k < a div k" by simp
      then have "k * Suc (b div k) \<le> k * (a div k)"
        by (intro mult_le_mono2) simp
      then have "k * (b div k) + k \<le> k * (a div k)"
        by simp
      then have "b < a" using a b rb by linarith
      with gt False show ?thesis by simp
    qed
  qed
qed

lemma divmod_eq:
  fixes a b k :: nat
  shows "a = b \<longleftrightarrow> a div k = b div k \<and> a mod k = b mod k"
  by (metis div_mult_mod_eq)

lemma pad2_less: "a < 100 \<Longrightarrow> b < 100 \<Longrightarrow> pad2 a < pad2 b \<longleftrightarrow> a < b"
proof -
  assume "a < 100" and "b < 100"
  then have "a div 10 < 10" and "b div 10 < 10" by simp_all
  then show ?thesis
    using divmod_less [of 10 a b] by (simp add: pad2_def digit_less digit_eq)
qed

lemma pad2_eq: "a < 100 \<Longrightarrow> b < 100 \<Longrightarrow> pad2 a = pad2 b \<longleftrightarrow> a = b"
proof -
  assume "a < 100" and "b < 100"
  then have "a div 10 < 10" and "b div 10 < 10" by simp_all
  then show ?thesis
    using divmod_eq [of a b 10] by (simp add: pad2_def digit_eq)
qed

lemma pad4_pad2: "pad4 n = pad2 (n div 100) @ pad2 (n mod 100)"
proof -
  have "n div 1000 = n div 100 div 10"
    by (simp add: div_mult2_eq [symmetric])
  moreover have "n div 10 mod 10 = n mod 100 div 10"
    by (simp add: mod_mult2_eq [of n 10 10, simplified])
  moreover have "n mod 100 mod 10 = n mod 10"
    by (simp add: mod_mod_cancel)
  moreover have "n mod 100 div 10 mod 10 = n mod 100 div 10"
    by (simp add: less_mult_imp_div_less)
  ultimately show ?thesis by (simp add: pad4_def pad2_def digit_eq)
qed

lemma length_pad2: "length (pad2 n) = 2"
  by (simp add: pad2_def)

lemma pad4_less: "a < 10000 \<Longrightarrow> b < 10000 \<Longrightarrow> pad4 a < pad4 b \<longleftrightarrow> a < b"
proof -
  assume a: "a < 10000" and b: "b < 10000"
  then have "a div 100 < 100" "b div 100 < 100" "a mod 100 < 100" "b mod 100 < 100"
    by auto
  then have "pad4 a < pad4 b \<longleftrightarrow>
      a div 100 < b div 100 \<or> (a div 100 = b div 100 \<and> a mod 100 < b mod 100)"
    by (simp add: pad4_pad2 append_less_same_length length_pad2 pad2_less pad2_eq)
  also have "\<dots> \<longleftrightarrow> a < b" using divmod_less [of 100 a b] by simp
  finally show ?thesis .
qed

lemma pad4_eq: "a < 10000 \<Longrightarrow> b < 10000 \<Longrightarrow> pad4 a = pad4 b \<longleftrightarrow> a = b"
proof -
  assume a: "a < 10000" and b: "b < 10000"
  then have "a div 100 < 100" "b div 100 < 100" "a mod 100 < 100" "b mod 100 < 100"
    by auto
  then have "pad4 a = pad4 b \<longleftrightarrow> a div 100 = b div 100 \<and> a mod 100 = b mod 100"
    by (simp add: pad4_pad2 length_pad2 pad2_eq)
  also have "\<dots> \<longleftrightarrow> a = b" using divmod_eq [of a b 100] by simp
  finally show ?thesis .
qed

lemma length_pad4: "length (pad4 n) = 4"
  by (simp add: pad4_def)

text \<open>The timestamp of the folder name, field by field.\<close>

lemma folder_ts_fields:
  "folder_ts t =
     pad4 (year t) @ CHR ''-'' # pad2 (month t) @ CHR ''-'' # pad2 (day t) @ CHR ''T'' #
     pad2 (hour t) @ CHR ''-'' # pad2 (minute t) @ CHR ''-'' # pad2 (second t)"
  by (simp add: folder_ts_def toISOString_def pad4_def pad2_def pad3_def digit_not_separator)

lemma length_folder_ts: "length (folder_ts t) = 19"
  by (simp add: folder_ts_fields length_pad2 length_pad4)

lemma folder_ts_less:
  assumes "valid_time t1" and "valid_time t2"
  shows "folder_ts t1 < folder_ts t2 \<longleftrightarrow> to_second t1 < to_second t2"
proof -
  have r: "year t1 < 10000" "year t2 < 10000" "month t1 < 100" "month t2 < 100"
    "day t1 < 100" "day t2 < 100" "hour t1 < 100" "hour t2 < 100"
    "minute t1 < 100" "minute t2 < 100" "second t1 < 100" "second t2 < 100"
    using assms by (auto simp: valid_time_def)
  have "folder_ts t1 < folder_ts t2 \<longleftrightarrow> folder_ts t1 @ [] < folder_ts t2 @ []"
    by simp
  then show ?thesis
    unfolding folder_ts_fields
    by (simp add: append_less_same_length length_pad2 length_pad4 pad2_less pad2_eq pad4_less
        pad4_eq r to_second_def clock_fields_def del: append_Nil2)
qed

lemma folder_ts_eq:
  assumes "valid_time t1" and "valid_time t2"
  shows "folder_ts t1 = folder_ts t2 \<longleftrightarrow> to_second t1 = to_second t2"
proof -
  have r: "year t1 < 10000" "year t2 < 10000" "month t1 < 100" "month t2 < 100"
    "day t1 < 100" "day t2 < 100" "hour t1 < 100" "hour t2 < 100"
    "minute t1 < 100" "minute t2 < 100" "second t1 < 100" "second t2 < 100"
    using assms by (auto simp: valid_time_def)
  show ?thesis
    by (simp add: folder_ts_fields length_pad2 length_pad4 pad2_eq pad4_eq r to_second_def
        clock_fields_def)
qed

text \<open>
  Claim C8, as the code has it. The folder name is the clock reading cut to the second,
  an underscore and the slug of the query. Two runs get the same folder name exactly
  when they start within the same second and their queries have the same slug; of two
  runs that start in different seconds, the earlier one has the smaller folder name.
  (Readings with years 0 to 9999.)
\<close>

theorem folderName_by_second_and_slug:
  assumes "valid_time t1" and "valid_time t2"
  shows "(folderName_of t1 q1 = folderName_of t2 q2 \<longleftrightarrow>
            to_second t1 = to_second t2 \<and> slugify_default q1 = slugify_default q2) \<and>
         (to_second t1 < to_second t2 \<longrightarrow> folderName_of t1 q1 < folderName_of t2 q2)"
proof -
  have len: "length (folder_ts t1) = length (folder_ts t2)"
    by (simp add: length_folder_ts)
  have "folderName_of t1 q1 = folderName_of t2 q2 \<longleftrightarrow>
      folder_ts t1 = folder_ts t2 \<and> slugify_default q1 = slugify_default q2"
    using len by (simp add: folderName_of_def)
  moreover have "folderName_of t1 q1 < folderName_of t2 q2"
    if "folder_ts t1 < folder_ts t2"
    using that len by (simp add: folderName_of_def append_less_same_length)
  ultimately show ?thesis
    using folder_ts_less [OF assms] folder_ts_eq [OF assms] by simp
qed

theorem folderName_by_second_and_slug_witness:
  "valid_time morning \<and> valid_time next_second \<and>
   to_second morning < to_second next_second \<and>
   folderName_of morning ''zebra'' < folderName_of next_second ''apple'' \<and>
   folderName_of morning ''zebra'' \<noteq> folderName_of next_second ''zebra''"
proof -
  have 1: "valid_time morning" by (simp add: valid_time_def morning_def)
  have 2: "valid_time next_second" by (simp add: valid_time_def morning_def next_second_def)
  have 3: "to_second morning < to_second next_second"
    by (simp add: to_second_def clock_fields_def morning_def next_second_def)
  show ?thesis
    using 1 2 3 folderName_by_second_and_slug [OF 1 2, of "''zebra''" "''apple''"]
      folderName_by_second_and_slug [OF 1 2, of "''zebra''" "''zebra''"]
    by simp
qed

text \<open>Claim C8, as it is stated, fails for two runs that start within one second: with
  the same query they share one folder name, and with different queries the order of the
  names is that of the slugs, not of the clock.\<close>

theorem same_second_same_folder:
  "earlier morning morning_later \<and>
   folderName_of morning ''What is X?'' = folderName_of morning_later ''What is X?'' \<and>
   folderName_of morning_later ''apple'' < folderName_of morning ''zebra''"
proof -
  have "earlier morning morning_later"
    by (simp add: earlier_def clock_fields_def morning_def morning_later_def)
  moreover have "folderName_of morning ''What is X?'' = folderName_of morning_later ''What is X?''"
    by (simp add: folderName_of_def folder_ts_fields morning_def morning_later_def)
  moreover have "folderName_of morning_later ''apple'' < folderName_of morning ''zebra''"
    by code_simp
  ultimately show ?thesis by simp
qed

section \<open>Properties of the collection pipeline\<close>

lemma extractFromTab_returns: "\<exists>r. outcome (extractFromTab s timeoutSec) = Normal r"
  by (auto simp add: extractFromTab_def extract_try_def extract_finally_def try_catch_def
      try_finally_def client_close_def Let_def
      split: loop_exit.splits option.splits prod.splits)

lemma engine_text_cases:
  "outcome (extractFromTab (cdp w tab e) timeout) = Normal r \<Longrightarrow>
   engine_text w tab e timeout = (if r = None \<or> r = Some [] then None else r)"
  by (cases r) (auto simp: engine_text_def)

text \<open>One pass of the loop body adds what the engine contributes.\<close>

lemma collect_engine_adds:
  "collect_engine w targets query dir timeout e st =
     Normal (st\<lparr> responses := responses st @ [engine_response w targets timeout e],
                 responseFiles := responseFiles st @ engine_attachment w targets dir timeout e,
                 written := written st @ engine_files w targets query dir timeout e,
                 emitted := emitted st @ [engine_event w targets timeout e] \<rparr>)"
proof (cases "find_tab e targets")
  case None
  then show ?thesis
    by (simp add: collect_engine_def engine_response_def engine_attachment_def engine_files_def
        engine_event_def)
next
  case (Some tab)
  obtain r where r: "outcome (extractFromTab (cdp w tab e) timeout) = Normal r"
    using extractFromTab_returns by blast
  show ?thesis
  proof (cases "r = None \<or> r = Some []")
    case True
    then have "engine_text w tab e timeout = None"
      using engine_text_cases [OF r] by simp
    with True Some r show ?thesis
      by (auto simp add: collect_engine_def engine_response_def engine_attachment_def
          engine_files_def engine_event_def engine_path_def Let_def)
  next
    case False
    then obtain t where t: "r = Some t" "t \<noteq> []" by (cases r) auto
    then have "engine_text w tab e timeout = Some t"
      using engine_text_cases [OF r] by simp
    with t Some r show ?thesis
      by (simp add: collect_engine_def engine_response_def engine_attachment_def
          engine_files_def engine_event_def engine_path_def Let_def text_of_def)
  qed
qed

lemma collect_engines_adds:
  "collect_engines w targets query dir timeout es st =
     Normal (st\<lparr> responses := responses st @ map (engine_response w targets timeout) es,
                 responseFiles := responseFiles st @
                   concat (map (engine_attachment w targets dir timeout) es),
                 written := written st @
                   concat (map (engine_files w targets query dir timeout) es),
                 emitted := emitted st @ map (engine_event w targets timeout) es \<rparr>)"
proof (induction es arbitrary: st)
  case Nil
  show ?case by simp
next
  case (Cons e es)
  show ?case
    by (simp add: collect_engine_adds Cons.IH)
qed

text \<open>The statuses an engine can get.\<close>

lemma engine_response_status:
  "r_status (engine_response w targets timeout e) =
     (case find_tab e targets of
        None \<Rightarrow> ''no_tab''
      | Some tab \<Rightarrow> (case engine_text w tab e timeout of Some t \<Rightarrow> ''ok'' | None \<Rightarrow> ''failed''))"
  by (simp add: engine_response_def split: option.splits)

lemma attachments_are_ok_responses:
  "length (concat (map (engine_attachment w targets dir timeout) es)) =
   length (filter (\<lambda>r. r_status r = ''ok'') (map (engine_response w targets timeout) es))"
  by (induction es)
     (auto simp: engine_attachment_def engine_response_status split: option.splits)

lemma engine_files_paths:
  "map fst (concat (map (engine_files w targets query dir timeout) es)) =
   map (engine_path dir) (filter (\<lambda>e. find_tab e targets \<noteq> None) es)"
  by (induction es) (auto simp: engine_files_def split: option.splits)

lemma synthesize_paths:
  "set (map fst (synthesize w query files dir)) \<subseteq> {path_join dir ''synthesis.md''}"
  by (auto simp: synthesize_def split: completion.splits)

text \<open>What \<^verbatim>\<open>collectAll\<close> returns once the tabs are listed.\<close>

lemma collectAll_returns:
  assumes listed: "listed w = Normal targets"
    and T: "T = timeout_of opts"
    and dir: "dir = path_join (OUTPUT_DIR w) (folderName_of (now_folder w) (extracted_query w))"
    and files: "files = concat (map (engine_attachment w targets dir T) ENGINES)"
  shows "\<exists>c rest. collectAll w opts = Normal c \<and>
      promptDir c = dir \<and> c_query c = extracted_query w \<and>
      c_responses c = map (engine_response w targets T) ENGINES \<and>
      synthesize_call c =
        (if opt_doSynthesize opts \<noteq> Some False \<and> 2 \<le> length files then Some files else None) \<and>
      c_written c =
        (path_join dir ''prompt.md'',
         ''# Query'' @ nl @ nl @ extracted_query w @ nl @ nl @
         ''**Date:** '' @ toISOString (now_prompt w) @ nl) #
        concat (map (engine_files w targets (extracted_query w) dir T) ENGINES) @ rest \<and>
      set (map fst rest) \<subseteq> {path_join dir ''synthesis.md'', path_join dir ''index.html''}"
proof -
  let ?q = "extracted_query w"
  let ?prompt = "(path_join dir ''prompt.md'',
      ''# Query'' @ nl @ nl @ ?q @ nl @ nl @ ''**Date:** '' @ toISOString (now_prompt w) @ nl)"
  let ?st0 = "\<lparr> responses = [], responseFiles = [], written = [?prompt],
      emitted = [Started ?q (map e_name ENGINES)] \<rparr>"
  define st where "st = \<lparr> responses = map (engine_response w targets T) ENGINES,
      responseFiles = files,
      written = ?prompt # concat (map (engine_files w targets ?q dir T) ENGINES),
      emitted = Started ?q (map e_name ENGINES) # map (engine_event w targets T) ENGINES \<rparr>"
  define synth where
    "synth = (opt_doSynthesize opts \<noteq> Some False \<and> 2 \<le> length (responseFiles st))"
  define extra where "extra = (if synth then synthesize w ?q (responseFiles st) dir else [])"
  define st1 where "st1 = (if synth
      then st\<lparr> emitted := emitted st @ [Synthesizing],
               written := written st @ synthesize w ?q (responseFiles st) dir \<rparr>
      else st)"
  define synthPath where "synthPath = path_join dir ''synthesis.md''"
  define synthExists where
    "synthExists = (on_disk w synthPath \<or> synthPath \<in> fst ` set (written st1))"
  define page where "page = viewer w dir ?q (responses st1)
      (if synthExists then Some synthPath else None)"
  define st2 where "st2 = (case page of
      Normal html \<Rightarrow> st1\<lparr> written := written st1 @ [(path_join dir ''index.html'', html)] \<rparr>
    | Throw err \<Rightarrow> st1)"
  define c where "c = \<lparr> promptDir = dir,
      folderName = folderName_of (now_folder w) ?q, c_query = ?q,
      c_responses = responses st2,
      synthesisPath = (if synth \<and> synthExists then Some synthPath else None),
      synthesisFile = (if synth \<and> synthExists then Some ''synthesis.md'' else None),
      viewerFile = (case page of Normal html \<Rightarrow> Some ''index.html'' | Throw err \<Rightarrow> None),
      c_written = written st2,
      c_emitted = emitted st2 @ [Complete (folderName_of (now_folder w) ?q) ?q (responses st2)],
      synthesize_call = (if synth then Some (responseFiles st) else None) \<rparr>"
  define rest where "rest = extra @ (case page of
      Normal html \<Rightarrow> [(path_join dir ''index.html'', html)] | Throw err \<Rightarrow> [])"
  have loop: "collect_engines w targets ?q dir T ENGINES ?st0 = Normal st"
    by (simp add: collect_engines_adds files st_def)
  have run: "collectAll w opts = Normal c"
    unfolding collectAll_def Let_def listed T [symmetric] dir [symmetric] completion.case loop
      c_def st2_def page_def synthExists_def synthPath_def st1_def synth_def
    by (rule refl)
  have written1: "written st1 = written st @ extra"
    by (simp add: st1_def extra_def)
  have responses2: "responses st2 = responses st"
    by (simp add: st2_def st1_def split: completion.splits)
  have written2: "written st2 = written st @ rest"
    by (simp add: st2_def rest_def written1 split: completion.splits)
  have "set (map fst extra) \<subseteq> {path_join dir ''synthesis.md''}"
    using synthesize_paths [of w ?q "responseFiles st" dir]
    by (cases synth) (simp_all add: extra_def)
  then have rest_paths:
    "set (map fst rest) \<subseteq> {path_join dir ''synthesis.md'', path_join dir ''index.html''}"
    by (auto simp: rest_def split: completion.splits)
  have "promptDir c = dir" and "c_query c = ?q"
    and "c_responses c = map (engine_response w targets T) ENGINES"
    and "synthesize_call c =
        (if opt_doSynthesize opts \<noteq> Some False \<and> 2 \<le> length files then Some files else None)"
    and "c_written c = ?prompt # concat (map (engine_files w targets ?q dir T) ENGINES) @ rest"
    by (simp_all add: c_def responses2 written2 st_def synth_def)
  with run rest_paths show ?thesis by blast
qed


subsection \<open>Synthesis\<close>

lemma attachments_are_attached_files:
  "concat (map (engine_attachment w targets dir timeout) es) =
   attached_files dir (map (engine_response w targets timeout) es)"
  by (induction es)
     (auto simp: engine_attachment_def engine_response_def engine_path_def attached_files_def
       split: option.splits)

lemma path_join_eq: "path_join dir a = path_join dir b \<longleftrightarrow> a = b"
  by (simp add: path_join_def)

lemma engine_files_not_synthesis:
  "e_slug e \<noteq> ''synthesis'' \<Longrightarrow>
   filter (\<lambda>f. fst f = path_join dir ''synthesis.md'')
     (engine_files w targets query dir timeout e) = []"
  by (auto simp: engine_files_def engine_path_def path_join_eq split: option.splits)

lemma ENGINES_files_not_synthesis:
  "filter (\<lambda>f. fst f = path_join dir ''synthesis.md'')
     (concat (map (engine_files w targets query dir timeout) ENGINES)) = []"
  by (simp add: ENGINES_def engine_files_not_synthesis)

lemma synthesize_only_synthesis:
  "filter (\<lambda>f. fst f = path_join dir ''synthesis.md'') (synthesize w query files dir) =
   synthesize w query files dir"
  by (simp add: synthesize_def split: completion.splits)

lemma engine_events_not_synthesizing:
  "filter (\<lambda>ev. ev = Synthesizing) (map (engine_event w targets timeout) es) = []"
  by (induction es) (simp_all add: engine_event_def Let_def)

text \<open>The events and the writes of a run, as far as the synthesis is concerned:
  \<^verbatim>\<open>synthesizing\<close> is emitted, and what \<^verbatim>\<open>synthesize\<close> writes is written, exactly when
  the step is taken.\<close>

lemma collectAll_synthesis:
  assumes listed: "listed w = Normal targets"
    and T: "T = timeout_of opts"
    and dir: "dir = path_join (OUTPUT_DIR w) (folderName_of (now_folder w) (extracted_query w))"
    and files: "files = concat (map (engine_attachment w targets dir T) ENGINES)"
    and synth: "synth = (opt_doSynthesize opts \<noteq> Some False \<and> 2 \<le> length files)"
  shows "\<exists>c. collectAll w opts = Normal c \<and>
      promptDir c = dir \<and> c_query c = extracted_query w \<and>
      c_responses c = map (engine_response w targets T) ENGINES \<and>
      synthesize_call c = (if synth then Some files else None) \<and>
      filter (\<lambda>ev. ev = Synthesizing) (c_emitted c) = (if synth then [Synthesizing] else []) \<and>
      filter (\<lambda>f. fst f = path_join dir ''synthesis.md'') (c_written c) =
        (if synth then synthesize w (extracted_query w) files dir else [])"
proof -
  let ?q = "extracted_query w"
  let ?prompt = "(path_join dir ''prompt.md'',
      ''# Query'' @ nl @ nl @ ?q @ nl @ nl @ ''**Date:** '' @ toISOString (now_prompt w) @ nl)"
  let ?st0 = "\<lparr> responses = [], responseFiles = [], written = [?prompt],
      emitted = [Started ?q (map e_name ENGINES)] \<rparr>"
  let ?sp = "path_join dir ''synthesis.md''"
  define st where "st = \<lparr> responses = map (engine_response w targets T) ENGINES,
      responseFiles = files,
      written = ?prompt # concat (map (engine_files w targets ?q dir T) ENGINES),
      emitted = Started ?q (map e_name ENGINES) # map (engine_event w targets T) ENGINES \<rparr>"
  define go where
    "go = (opt_doSynthesize opts \<noteq> Some False \<and> 2 \<le> length (responseFiles st))"
  define st1 where "st1 = (if go
      then st\<lparr> emitted := emitted st @ [Synthesizing],
               written := written st @ synthesize w ?q (responseFiles st) dir \<rparr>
      else st)"
  define synthPath where "synthPath = path_join dir ''synthesis.md''"
  define synthExists where
    "synthExists = (on_disk w synthPath \<or> synthPath \<in> fst ` set (written st1))"
  define page where "page = viewer w dir ?q (responses st1)
      (if synthExists then Some synthPath else None)"
  define st2 where "st2 = (case page of
      Normal html \<Rightarrow> st1\<lparr> written := written st1 @ [(path_join dir ''index.html'', html)] \<rparr>
    | Throw err \<Rightarrow> st1)"
  define c where "c = \<lparr> promptDir = dir,
      folderName = folderName_of (now_folder w) ?q, c_query = ?q,
      c_responses = responses st2,
      synthesisPath = (if go \<and> synthExists then Some synthPath else None),
      synthesisFile = (if go \<and> synthExists then Some ''synthesis.md'' else None),
      viewerFile = (case page of Normal html \<Rightarrow> Some ''index.html'' | Throw err \<Rightarrow> None),
      c_written = written st2,
      c_emitted = emitted st2 @ [Complete (folderName_of (now_folder w) ?q) ?q (responses st2)],
      synthesize_call = (if go then Some (responseFiles st) else None) \<rparr>"
  have loop: "collect_engines w targets ?q dir T ENGINES ?st0 = Normal st"
    by (simp add: collect_engines_adds files st_def)
  have run: "collectAll w opts = Normal c"
    unfolding collectAll_def Let_def listed T [symmetric] dir [symmetric] completion.case loop
      c_def st2_def page_def synthExists_def synthPath_def st1_def go_def
    by (rule refl)
  have go: "go = synth" and rf: "responseFiles st = files"
    by (simp_all add: go_def synth st_def)
  have responses2: "responses st2 = responses st"
    by (simp add: st2_def st1_def split: completion.splits)
  have emitted2: "emitted st2 = emitted st @ (if synth then [Synthesizing] else [])"
    by (simp add: st2_def st1_def go split: completion.splits)
  have written2: "written st2 =
      written st @ (if synth then synthesize w ?q files dir else []) @
      (case page of Normal html \<Rightarrow> [(path_join dir ''index.html'', html)] | Throw err \<Rightarrow> [])"
    by (simp add: st2_def st1_def go rf split: completion.splits)
  have ev: "filter (\<lambda>ev. ev = Synthesizing) (emitted st) = []"
    by (simp add: st_def engine_events_not_synthesizing)
  have wr: "filter (\<lambda>f. fst f = ?sp) (written st) = []"
    by (simp add: st_def ENGINES_files_not_synthesis path_join_eq)
  have pg: "filter (\<lambda>f. fst f = ?sp)
      (case page of Normal html \<Rightarrow> [(path_join dir ''index.html'', html)] | Throw err \<Rightarrow> []) = []"
    by (simp add: path_join_eq split: completion.splits)
  have "promptDir c = dir" and "c_query c = ?q"
    and "c_responses c = map (engine_response w targets T) ENGINES"
    and "synthesize_call c = (if synth then Some files else None)"
    by (simp_all add: c_def responses2 st_def go)
  moreover have "filter (\<lambda>ev. ev = Synthesizing) (c_emitted c) =
      (if synth then [Synthesizing] else [])"
    by (simp add: c_def emitted2 ev)
  moreover have "filter (\<lambda>f. fst f = ?sp) (c_written c) =
      (if synth then synthesize w ?q files dir else [])"
    by (simp add: c_def written2 wr pg synthesize_only_synthesis)
  ultimately show ?thesis using run by blast
qed

text \<open>
  Claim C2. In a run with synthesis enabled (the option \<^verbatim>\<open>doSynthesize\<close> is not
  \<^verbatim>\<open>false\<close>), once the tabs are listed the run completes, whatever the number of
  responses with the status \<^verbatim>\<open>ok\<close>. When there are at least two of them, the run emits
  \<^verbatim>\<open>synthesizing\<close> once, calls \<^verbatim>\<open>synthesize\<close> with the files of exactly these responses,
  and its writes to \<^verbatim>\<open>synthesis.md\<close> are those of that call. When there are fewer than
  two, it emits no \<^verbatim>\<open>synthesizing\<close>, makes no call and writes no \<^verbatim>\<open>synthesis.md\<close>.
\<close>

theorem synthesis_iff_two_ok:
  assumes "listed w = Normal targets" and "opt_doSynthesize opts \<noteq> Some False"
  shows "\<exists>c. collectAll w opts = Normal c \<and>
     filter (\<lambda>ev. ev = Synthesizing) (c_emitted c) =
       (if 2 \<le> length (filter (\<lambda>r. r_status r = ''ok'') (c_responses c))
        then [Synthesizing] else []) \<and>
     filter (\<lambda>f. fst f = path_join (promptDir c) ''synthesis.md'') (c_written c) =
       (if 2 \<le> length (filter (\<lambda>r. r_status r = ''ok'') (c_responses c))
        then synthesize w (c_query c) (attached_files (promptDir c) (c_responses c)) (promptDir c)
        else []) \<and>
     synthesize_call c =
       (if 2 \<le> length (filter (\<lambda>r. r_status r = ''ok'') (c_responses c))
        then Some (attached_files (promptDir c) (c_responses c)) else None)"
proof -
  let ?T = "timeout_of opts"
  let ?dir = "path_join (OUTPUT_DIR w) (folderName_of (now_folder w) (extracted_query w))"
  let ?files = "concat (map (engine_attachment w targets ?dir ?T) ENGINES)"
  let ?rs = "map (engine_response w targets ?T) ENGINES"
  let ?two = "2 \<le> length (filter (\<lambda>r. r_status r = ''ok'') ?rs)"
  have files: "?files = attached_files ?dir ?rs"
    by (rule attachments_are_attached_files)
  have "length ?files = length (filter (\<lambda>r. r_status r = ''ok'') ?rs)"
    by (rule attachments_are_ok_responses)
  then have synth: "(opt_doSynthesize opts \<noteq> Some False \<and> 2 \<le> length ?files) = ?two"
    using assms(2) by simp
  from collectAll_synthesis [OF assms(1) refl refl refl refl, of opts]
  obtain c where run: "collectAll w opts = Normal c"
    and dir: "promptDir c = ?dir" and q: "c_query c = extracted_query w"
    and resp: "c_responses c = ?rs"
    and call: "synthesize_call c =
        (if opt_doSynthesize opts \<noteq> Some False \<and> 2 \<le> length ?files then Some ?files else None)"
    and ev: "filter (\<lambda>ev. ev = Synthesizing) (c_emitted c) =
        (if opt_doSynthesize opts \<noteq> Some False \<and> 2 \<le> length ?files
         then [Synthesizing] else [])"
    and wr: "filter (\<lambda>f. fst f = path_join ?dir ''synthesis.md'') (c_written c) =
        (if opt_doSynthesize opts \<noteq> Some False \<and> 2 \<le> length ?files
         then synthesize w (extracted_query w) ?files ?dir else [])"
    by blast
  have "filter (\<lambda>ev. ev = Synthesizing) (c_emitted c) = (if ?two then [Synthesizing] else [])"
    by (simp only: ev synth)
  moreover have "filter (\<lambda>f. fst f = path_join ?dir ''synthesis.md'') (c_written c) =
      (if ?two then synthesize w (extracted_query w) (attached_files ?dir ?rs) ?dir else [])"
    by (simp only: files [symmetric] wr synth)
  moreover have "synthesize_call c = (if ?two then Some (attached_files ?dir ?rs) else None)"
    by (simp only: files [symmetric] call synth)
  ultimately have "filter (\<lambda>ev. ev = Synthesizing) (c_emitted c) =
       (if 2 \<le> length (filter (\<lambda>r. r_status r = ''ok'') (c_responses c))
        then [Synthesizing] else []) \<and>
     filter (\<lambda>f. fst f = path_join (promptDir c) ''synthesis.md'') (c_written c) =
       (if 2 \<le> length (filter (\<lambda>r. r_status r = ''ok'') (c_responses c))
        then synthesize w (c_query c) (attached_files (promptDir c) (c_responses c)) (promptDir c)
        else []) \<and>
     synthesize_call c =
       (if 2 \<le> length (filter (\<lambda>r. r_status r = ''ok'') (c_responses c))
        then Some (attached_files (promptDir c) (c_responses c)) else None)"
    unfolding dir q resp by (intro conjI)
  then show ?thesis
    by (intro exI [of _ c] conjI [OF run])
qed

lemma two_tabs_statuses:
  "map_option (map r_status \<circ> c_responses) (returned (collectAll two_tabs quick)) =
     Some [''ok'', ''ok'', ''no_tab'', ''no_tab'']"
  by code_simp

lemma two_tabs_events:
  "map_option (filter (\<lambda>ev. ev = Synthesizing) \<circ> c_emitted) (returned (collectAll two_tabs quick)) =
     Some [Synthesizing]"
  by code_simp

lemma two_tabs_paths:
  "map_option (map fst \<circ> c_written) (returned (collectAll two_tabs quick)) =
     Some [''./responses/2026-11-03T09-35-12_what-is-the-capital-of-france/prompt.md'',
           ''./responses/2026-11-03T09-35-12_what-is-the-capital-of-france/chatgpt.md'',
           ''./responses/2026-11-03T09-35-12_what-is-the-capital-of-france/claude.md'',
           ''./responses/2026-11-03T09-35-12_what-is-the-capital-of-france/synthesis.md'',
           ''./responses/2026-11-03T09-35-12_what-is-the-capital-of-france/index.html'']"
  by code_simp

lemma one_tab_events:
  "map_option (filter (\<lambda>ev. ev = Synthesizing) \<circ> c_emitted) (returned (collectAll one_tab quick)) =
     Some []"
  by code_simp

theorem synthesis_iff_two_ok_witness:
  "listed two_tabs = Normal [chatgpt_tab, claude_tab] \<and>
   opt_doSynthesize quick \<noteq> Some False \<and>
   (\<exists>c. collectAll two_tabs quick = Normal c \<and>
     filter (\<lambda>ev. ev = Synthesizing) (c_emitted c) =
       (if 2 \<le> length (filter (\<lambda>r. r_status r = ''ok'') (c_responses c))
        then [Synthesizing] else []) \<and>
     filter (\<lambda>f. fst f = path_join (promptDir c) ''synthesis.md'') (c_written c) =
       (if 2 \<le> length (filter (\<lambda>r. r_status r = ''ok'') (c_responses c))
        then synthesize two_tabs (c_query c) (attached_files (promptDir c) (c_responses c))
               (promptDir c)
        else []) \<and>
     synthesize_call c =
       (if 2 \<le> length (filter (\<lambda>r. r_status r = ''ok'') (c_responses c))
        then Some (attached_files (promptDir c) (c_responses c)) else None)) \<and>
   map_option (map r_status \<circ> c_responses) (returned (collectAll two_tabs quick)) =
     Some [''ok'', ''ok'', ''no_tab'', ''no_tab''] \<and>
   map_option (filter (\<lambda>ev. ev = Synthesizing) \<circ> c_emitted) (returned (collectAll two_tabs quick)) =
     Some [Synthesizing] \<and>
   map_option (map fst \<circ> c_written) (returned (collectAll two_tabs quick)) =
     Some [''./responses/2026-11-03T09-35-12_what-is-the-capital-of-france/prompt.md'',
           ''./responses/2026-11-03T09-35-12_what-is-the-capital-of-france/chatgpt.md'',
           ''./responses/2026-11-03T09-35-12_what-is-the-capital-of-france/claude.md'',
           ''./responses/2026-11-03T09-35-12_what-is-the-capital-of-france/synthesis.md'',
           ''./responses/2026-11-03T09-35-12_what-is-the-capital-of-france/index.html''] \<and>
   map_option (filter (\<lambda>ev. ev = Synthesizing) \<circ> c_emitted) (returned (collectAll one_tab quick)) =
     Some []"
proof -
  have 1: "listed two_tabs = Normal [chatgpt_tab, claude_tab]" by (simp add: two_tabs_def)
  have 2: "opt_doSynthesize quick \<noteq> Some False" by (simp add: quick_def)
  show ?thesis
    by (intro conjI 1 2 synthesis_iff_two_ok [OF 1 2] two_tabs_statuses two_tabs_events
        two_tabs_paths one_tab_events)
qed

subsection \<open>Statuses\<close>

text \<open>
  Claim C10. Once the tabs are listed the run completes, and every response of the
  returned object has the status \<^verbatim>\<open>ok\<close>, \<^verbatim>\<open>no_tab\<close> or \<^verbatim>\<open>failed\<close>. An engine whose tab
  was found and whose polling reached the deadline with a non-empty \<open>lastText\<close> is
  reported with the status \<^verbatim>\<open>ok\<close>, and its \<open>chars\<close> count the text with the note
  appended.
\<close>

theorem statuses_are_ok_no_tab_failed:
  assumes "listed w = Normal targets"
  shows "\<exists>c. collectAll w opts = Normal c \<and>
     (\<forall>r \<in> set (c_responses c).
        r_status r = ''ok'' \<or> r_status r = ''no_tab'' \<or> r_status r = ''failed'') \<and>
     (\<forall>e \<in> set ENGINES. \<forall>tab st.
        find_tab e targets = Some tab \<and> connect_error (cdp w tab e) = None \<and>
        poll_loop (cdp w tab e) (started (cdp w tab e) + timeout_of opts * 1000) 0
          (started (cdp w tab e)) initial = Deadline st \<and>
        lastText st \<noteq> [] \<longrightarrow>
        \<lparr> r_engine = e_name e, r_slug = e_slug e, r_status = ''ok'',
          r_chars = Some (length (lastText st @ incomplete_note)),
          r_file = Some (e_slug e @ ''.md'') \<rparr> \<in> set (c_responses c))"
proof -
  let ?T = "timeout_of opts"
  from collectAll_returns [OF assms(1) refl refl refl, of opts]
  obtain c where run: "collectAll w opts = Normal c"
    and resp: "c_responses c = map (engine_response w targets ?T) ENGINES"
    by blast
  have three: "\<forall>r \<in> set (c_responses c).
      r_status r = ''ok'' \<or> r_status r = ''no_tab'' \<or> r_status r = ''failed''"
    by (auto simp: resp engine_response_status split: option.splits)
  have partial: "\<lparr> r_engine = e_name e, r_slug = e_slug e, r_status = ''ok'',
        r_chars = Some (length (lastText st @ incomplete_note)),
        r_file = Some (e_slug e @ ''.md'') \<rparr> \<in> set (c_responses c)"
    if e: "e \<in> set ENGINES" and tab: "find_tab e targets = Some tab"
      and conn: "connect_error (cdp w tab e) = None"
      and loop: "poll_loop (cdp w tab e) (started (cdp w tab e) + ?T * 1000) 0
          (started (cdp w tab e)) initial = Deadline st"
      and ne: "lastText st \<noteq> []"
    for e tab st
  proof -
    have "run_polls (polling_run (cdp w tab e) ?T) initial = Deadline st"
      using loop by (simp add: polling_run_def poll_loop_run_polls)
    then have "outcome (extractFromTab (cdp w tab e) ?T) =
        Normal (Some (lastText st @ incomplete_note))"
      using ne by (simp add: extractFromTab_connected [OF conn])
    then have "engine_text w tab e ?T = Some (lastText st @ incomplete_note)"
      using ne by (simp add: engine_text_def)
    then have "engine_response w targets ?T e =
        \<lparr> r_engine = e_name e, r_slug = e_slug e, r_status = ''ok'',
          r_chars = Some (length (lastText st @ incomplete_note)),
          r_file = Some (e_slug e @ ''.md'') \<rparr>"
      using tab by (simp add: engine_response_def)
    then show ?thesis
      using e resp by (metis image_eqI list.set_map)
  qed
  show ?thesis
    using run three partial by blast
qed

lemma slow_tab_responses:
  "map_option (map (\<lambda>r. (r_status r, r_chars r)) \<circ> c_responses)
     (returned (collectAll slow_tab quicker)) =
     Some [(''ok'', Some 47), (''no_tab'', None), (''no_tab'', None), (''no_tab'', None)]"
  by code_simp

theorem statuses_are_ok_no_tab_failed_witness:
  "listed slow_tab = Normal [chatgpt_tab] \<and>
   (\<exists>c. collectAll slow_tab quicker = Normal c \<and>
      list_all (\<lambda>r. r_status r = ''ok'' \<or> r_status r = ''no_tab'' \<or> r_status r = ''failed'')
        (c_responses c)) \<and>
   map_option (map (\<lambda>r. (r_status r, r_chars r)) \<circ> c_responses)
     (returned (collectAll slow_tab quicker)) =
     Some [(''ok'', Some 47), (''no_tab'', None), (''no_tab'', None), (''no_tab'', None)]"
proof -
  have 1: "listed slow_tab = Normal [chatgpt_tab]"
    by (simp add: slow_tab_def one_tab_def two_tabs_def)
  show ?thesis
    using 1 statuses_are_ok_no_tab_failed [OF 1, of quicker] slow_tab_responses
    by (auto simp: list_all_iff)
qed

subsection \<open>Files\<close>

text \<open>
  Claim C7, as the code has it. Once the tabs are listed the run completes, and it
  writes, in this order: the query file \<^verbatim>\<open>prompt.md\<close>; one file for each engine that has
  a matching tab, in the order of the registry, also when its extraction failed, in
  which case the body of the file is \<^verbatim>\<open>*No response collected*\<close>; and then nothing but
  the synthesis file and the viewer page. An engine without a matching tab gets no
  file.
\<close>

theorem files_for_engines_with_a_tab:
  assumes "listed w = Normal targets"
  shows "\<exists>c rest. collectAll w opts = Normal c \<and>
     map fst (c_written c) =
       path_join (promptDir c) ''prompt.md'' #
       map (engine_path (promptDir c)) (filter (\<lambda>e. find_tab e targets \<noteq> None) ENGINES) @ rest \<and>
     set rest \<subseteq> {path_join (promptDir c) ''synthesis.md'', path_join (promptDir c) ''index.html''} \<and>
     (\<forall>e \<in> set ENGINES. \<forall>tab. find_tab e targets = Some tab \<longrightarrow>
        (outcome (extractFromTab (cdp w tab e) (timeout_of opts)) = Normal None \<longrightarrow>
           (engine_path (promptDir c) e, engine_header w (c_query c) e tab @ no_response_note)
             \<in> set (c_written c)) \<and>
        (\<forall>t. outcome (extractFromTab (cdp w tab e) (timeout_of opts)) = Normal (Some t) \<and> t \<noteq> [] \<longrightarrow>
           (engine_path (promptDir c) e, engine_header w (c_query c) e tab @ t)
             \<in> set (c_written c)))"
proof -
  let ?T = "timeout_of opts"
  let ?q = "extracted_query w"
  let ?dir = "path_join (OUTPUT_DIR w) (folderName_of (now_folder w) ?q)"
  from collectAll_returns [OF assms(1) refl refl refl, of opts]
  obtain c rest where run: "collectAll w opts = Normal c"
    and dir: "promptDir c = ?dir"
    and q: "c_query c = ?q"
    and written: "c_written c =
        (path_join ?dir ''prompt.md'',
         ''# Query'' @ nl @ nl @ ?q @ nl @ nl @ ''**Date:** '' @ toISOString (now_prompt w) @ nl) #
        concat (map (engine_files w targets ?q ?dir ?T) ENGINES) @ rest"
    and rest: "set (map fst rest) \<subseteq>
        {path_join ?dir ''synthesis.md'', path_join ?dir ''index.html''}"
    by blast
  have paths: "map fst (c_written c) =
      path_join ?dir ''prompt.md'' #
      map (engine_path ?dir) (filter (\<lambda>e. find_tab e targets \<noteq> None) ENGINES) @
      map fst rest"
    by (simp only: written list.map map_append engine_files_paths fst_conv)
  have wrote: "(engine_path ?dir e,
        engine_header w ?q e tab @
          (case engine_text w tab e ?T of Some t \<Rightarrow> t | None \<Rightarrow> no_response_note))
        \<in> set (c_written c)"
    if "e \<in> set ENGINES" and "find_tab e targets = Some tab" for e tab
  proof -
    have "engine_files w targets ?q ?dir ?T e =
        [(engine_path ?dir e,
          engine_header w ?q e tab @
            (case engine_text w tab e ?T of Some t \<Rightarrow> t | None \<Rightarrow> no_response_note))]"
      using that(2) by (simp add: engine_files_def)
    then have "(engine_path ?dir e,
          engine_header w ?q e tab @
            (case engine_text w tab e ?T of Some t \<Rightarrow> t | None \<Rightarrow> no_response_note))
        \<in> set (concat (map (engine_files w targets ?q ?dir ?T) ENGINES))"
      using that(1) by (auto intro!: bexI [of _ e])
    then show ?thesis by (simp add: written)
  qed
  have failed: "(engine_path ?dir e, engine_header w ?q e tab @ no_response_note)
        \<in> set (c_written c)"
    if "e \<in> set ENGINES" and "find_tab e targets = Some tab"
      and "outcome (extractFromTab (cdp w tab e) ?T) = Normal None" for e tab
    using wrote [OF that(1,2)] that(3) by (simp add: engine_text_def)
  have ok: "(engine_path ?dir e, engine_header w ?q e tab @ t) \<in> set (c_written c)"
    if "e \<in> set ENGINES" and "find_tab e targets = Some tab"
      and "outcome (extractFromTab (cdp w tab e) ?T) = Normal (Some t)" and "t \<noteq> []" for e tab t
    using wrote [OF that(1,2)] that(3,4) by (simp add: engine_text_def)
  have "map fst (c_written c) =
       path_join (promptDir c) ''prompt.md'' #
       map (engine_path (promptDir c)) (filter (\<lambda>e. find_tab e targets \<noteq> None) ENGINES) @
       map fst rest \<and>
     set (map fst rest) \<subseteq>
       {path_join (promptDir c) ''synthesis.md'', path_join (promptDir c) ''index.html''} \<and>
     (\<forall>e \<in> set ENGINES. \<forall>tab. find_tab e targets = Some tab \<longrightarrow>
        (outcome (extractFromTab (cdp w tab e) (timeout_of opts)) = Normal None \<longrightarrow>
           (engine_path (promptDir c) e, engine_header w (c_query c) e tab @ no_response_note)
             \<in> set (c_written c)) \<and>
        (\<forall>t. outcome (extractFromTab (cdp w tab e) (timeout_of opts)) = Normal (Some t) \<and> t \<noteq> [] \<longrightarrow>
           (engine_path (promptDir c) e, engine_header w (c_query c) e tab @ t)
             \<in> set (c_written c)))"
    unfolding dir q using paths rest failed ok by blast
  then show ?thesis
    by (intro exI [of _ c] exI [of _ "map fst rest"] conjI [OF run])
qed

lemma one_tab_paths:
  "map_option (map fst \<circ> c_written) (returned (collectAll one_tab quick)) =
     Some [''./responses/2026-11-03T09-35-12_what-is-the-capital-of-france/prompt.md'',
           ''./responses/2026-11-03T09-35-12_what-is-the-capital-of-france/chatgpt.md'',
           ''./responses/2026-11-03T09-35-12_what-is-the-capital-of-france/index.html'']"
  by code_simp

theorem files_for_engines_with_a_tab_witness:
  "listed one_tab = Normal [chatgpt_tab] \<and>
   (\<exists>c rest. collectAll one_tab quick = Normal c \<and>
     map fst (c_written c) =
       path_join (promptDir c) ''prompt.md'' #
       map (engine_path (promptDir c)) (filter (\<lambda>e. find_tab e [chatgpt_tab] \<noteq> None) ENGINES) @ rest \<and>
     set rest \<subseteq> {path_join (promptDir c) ''synthesis.md'', path_join (promptDir c) ''index.html''} \<and>
     (\<forall>e \<in> set ENGINES. \<forall>tab. find_tab e [chatgpt_tab] = Some tab \<longrightarrow>
        (outcome (extractFromTab (cdp one_tab tab e) (timeout_of quick)) = Normal None \<longrightarrow>
           (engine_path (promptDir c) e, engine_header one_tab (c_query c) e tab @ no_response_note)
             \<in> set (c_written c)) \<and>
        (\<forall>t. outcome (extractFromTab (cdp one_tab tab e) (timeout_of quick)) = Normal (Some t) \<and> t \<noteq> [] \<longrightarrow>
           (engine_path (promptDir c) e, engine_header one_tab (c_query c) e tab @ t)
             \<in> set (c_written c)))) \<and>
   map_option (map fst \<circ> c_written) (returned (collectAll one_tab quick)) =
     Some [''./responses/2026-11-03T09-35-12_what-is-the-capital-of-france/prompt.md'',
           ''./responses/2026-11-03T09-35-12_what-is-the-capital-of-france/chatgpt.md'',
           ''./responses/2026-11-03T09-35-12_what-is-the-capital-of-france/index.html'']"
proof -
  have 1: "listed one_tab = Normal [chatgpt_tab]"
    by (simp add: one_tab_def two_tabs_def)
  show ?thesis
    by (intro conjI 1 files_for_engines_with_a_tab [OF 1] one_tab_paths)
qed

text \<open>Claim C7, as it is stated, fails for an engine without a matching tab: of the
  four configured engines only ChatGPT has a tab, the three others are reported as
  \<^verbatim>\<open>no_tab\<close>, and the run writes one engine file, not four.\<close>

theorem no_file_without_tab:
  "length ENGINES = 4 \<and>
   listed one_tab = Normal [chatgpt_tab] \<and>
   map_option (map r_status \<circ> c_responses) (returned (collectAll one_tab quick)) =
     Some [''ok'', ''no_tab'', ''no_tab'', ''no_tab''] \<and>
   map_option (map fst \<circ> c_written) (returned (collectAll one_tab quick)) =
     Some [''./responses/2026-11-03T09-35-12_what-is-the-capital-of-france/prompt.md'',
           ''./responses/2026-11-03T09-35-12_what-is-the-capital-of-france/chatgpt.md'',
           ''./responses/2026-11-03T09-35-12_what-is-the-capital-of-france/index.html'']"
proof -
  have "length ENGINES = 4" by (simp add: ENGINES_def)
  moreover have "listed one_tab = Normal [chatgpt_tab]"
    by (simp add: one_tab_def two_tabs_def)
  moreover have "map_option (map r_status \<circ> c_responses) (returned (collectAll one_tab quick)) =
     Some [''ok'', ''no_tab'', ''no_tab'', ''no_tab'']"
    by code_simp
  ultimately show ?thesis using one_tab_paths by simp
qed

end
